theory Spec2Isabelle
  imports Main "HOL-Library.Word"
begin

section \<open>Data model of libobs/obs-scene.c\<close>

text \<open>
  The scene compositor works on heap objects linked by raw pointers, so the embedding
  keeps an explicit store: a pointer is an optional address (\<open>None\<close> is NULL), scene
  items and scenes live in two maps from addresses to records, and a freed item is
  removed from its map. Every dereference goes through the store; a NULL or dangling
  dereference and a failed \<open>assert\<close> are error values. Calls into collaborators that
  are not part of obs-scene.c (mutex, signal handler, source runtime, graphics matrix
  stack, logger, allocator) are recorded, in program order, in the trace of the state.

  Single precision values are kept abstract (type variable \<open>'f\<close>): the code only
  copies them, negates them, and uses the constants \<open>0.0f\<close> and \<open>1.0f\<close>.
\<close>

datatype error = NullDeref | UseAfterFree | AssertFailed

type_synonym ptr = "nat option"

text \<open>The reference count of an item is a C \<open>long\<close>, changed only through
  \<open>os_atomic_inc_long\<close> and \<open>os_atomic_dec_long\<close>: 64 bits on the LP64 platforms of
  this repository, with wrap-around.\<close>

type_synonym long = "64 word"

datatype 'f vec2 = Vec2 (vec2_x: 'f) (vec2_y: 'f)

record obs_scene =
  source :: ptr
  first_item :: ptr

record 'f obs_scene_item =
  ref :: long
  removed :: bool
  parent :: ptr
  source :: ptr
  visible :: bool
  origin :: "'f vec2"
  pos :: "'f vec2"
  scale :: "'f vec2"
  rot :: 'f
  prev :: ptr
  "next" :: ptr

datatype order_movement =
  ORDER_MOVE_UP | ORDER_MOVE_DOWN | ORDER_MOVE_TOP | ORDER_MOVE_BOTTOM

datatype log_level = LOG_ERROR | LOG_WARNING

datatype 'f event =
    MutexLock nat
  | MutexUnlock nat
  | SignalHandlerSignal nat string ptr nat
  | SourceAddref ptr
  | SourceRelease ptr
  | SourceAddChild ptr ptr
  | SourceRemoveChild ptr ptr
  | SourceVideoRender ptr
  | Blog log_level string "string list"
  | Bfree nat
  | GsMatrixPush
  | GsMatrixPop
  | GsMatrixTranslate3f 'f 'f 'f
  | GsMatrixScale3f 'f 'f 'f
  | GsMatrixRotaa4f 'f 'f 'f 'f

record 'f state =
  items :: "nat \<rightharpoonup> 'f obs_scene_item"
  scenes :: "nat \<rightharpoonup> obs_scene"
  brk :: nat
  trace :: "'f event list"

text \<open>One element of the "items" array of a scene's settings, with the six keys that
  \<open>scene_save_item\<close> writes and \<open>scene_load_item\<close> reads. The key "rot" holds a
  double (type variable \<open>'d\<close>).\<close>

record ('f, 'd) item_data =
  data_name :: string
  data_visible :: bool
  data_rot :: 'd
  data_origin :: "'f vec2"
  data_pos :: "'f vec2"
  data_scale :: "'f vec2"

section \<open>Store access\<close>

fun bindE :: "error + 'a \<Rightarrow> ('a \<Rightarrow> error + 'b) \<Rightarrow> error + 'b" where
  "bindE (Inl e) f = Inl e"
| "bindE (Inr v) f = f v"

fun bindO :: "(error + 'a) option \<Rightarrow> ('a \<Rightarrow> (error + 'b) option) \<Rightarrow> (error + 'b) option" where
  "bindO None f = None"
| "bindO (Some (Inl e)) f = Some (Inl e)"
| "bindO (Some (Inr v)) f = f v"

definition emit :: "'f event \<Rightarrow> 'f state \<Rightarrow> 'f state" where
  "emit e st = st\<lparr>trace := trace st @ [e]\<rparr>"

definition get_item :: "'f state \<Rightarrow> nat \<Rightarrow> error + 'f obs_scene_item" where
  "get_item st a = (case items st a of None \<Rightarrow> Inl UseAfterFree | Some it \<Rightarrow> Inr it)"

definition get_scene :: "'f state \<Rightarrow> nat \<Rightarrow> error + obs_scene" where
  "get_scene st sc = (case scenes st sc of None \<Rightarrow> Inl UseAfterFree | Some s \<Rightarrow> Inr s)"

definition upd_item ::
  "nat \<Rightarrow> ('f obs_scene_item \<Rightarrow> 'f obs_scene_item) \<Rightarrow> 'f state \<Rightarrow> error + 'f state" where
  "upd_item a f st =
    (case items st a of
       None \<Rightarrow> Inl UseAfterFree
     | Some it \<Rightarrow> Inr (st\<lparr>items := (items st)(a \<mapsto> f it)\<rparr>))"

definition upd_scene ::
  "nat \<Rightarrow> (obs_scene \<Rightarrow> obs_scene) \<Rightarrow> 'f state \<Rightarrow> error + 'f state" where
  "upd_scene sc f st =
    (case scenes st sc of
       None \<Rightarrow> Inl UseAfterFree
     | Some s \<Rightarrow> Inr (st\<lparr>scenes := (scenes st)(sc \<mapsto> f s)\<rparr>))"

definition mutex_lock :: "nat \<Rightarrow> 'f state \<Rightarrow> error + 'f state" where
  "mutex_lock sc st =
    (case scenes st sc of None \<Rightarrow> Inl UseAfterFree | Some s \<Rightarrow> Inr (emit (MutexLock sc) st))"

definition mutex_unlock :: "nat \<Rightarrow> 'f state \<Rightarrow> error + 'f state" where
  "mutex_unlock sc st =
    (case scenes st sc of None \<Rightarrow> Inl UseAfterFree | Some s \<Rightarrow> Inr (emit (MutexUnlock sc) st))"

section \<open>The ordering primitives\<close>

definition signal_item_remove :: "nat \<Rightarrow> 'f state \<Rightarrow> error + 'f state" where
  "signal_item_remove a st =
    bindE (get_item st a) (\<lambda>it.
      case parent it of
        None \<Rightarrow> Inl NullDeref
      | Some p \<Rightarrow>
          bindE (get_scene st p) (\<lambda>s.
            case obs_scene.source s of
              None \<Rightarrow> Inl NullDeref
            | Some ssrc \<Rightarrow> Inr (emit (SignalHandlerSignal ssrc ''item_remove'' (Some p) a) st)))"

definition detach_sceneitem :: "nat \<Rightarrow> 'f state \<Rightarrow> error + 'f state" where
  "detach_sceneitem a st =
    bindE (get_item st a) (\<lambda>it.
    bindE (case prev it of
             Some p \<Rightarrow> upd_item p (\<lambda>i. i\<lparr>next := next it\<rparr>) st
           | None \<Rightarrow>
               (case parent it of
                  None \<Rightarrow> Inl NullDeref
                | Some sc \<Rightarrow> upd_scene sc (\<lambda>s. s\<lparr>first_item := next it\<rparr>) st)) (\<lambda>st1.
    bindE (get_item st1 a) (\<lambda>it1.
    bindE (case next it1 of
             Some n \<Rightarrow> upd_item n (\<lambda>i. i\<lparr>prev := prev it1\<rparr>) st1
           | None \<Rightarrow> Inr st1) (\<lambda>st2.
    upd_item a (\<lambda>i. i\<lparr>parent := None\<rparr>) st2))))"

definition attach_sceneitem :: "nat \<Rightarrow> ptr \<Rightarrow> 'f state \<Rightarrow> error + 'f state" where
  "attach_sceneitem a prv st =
    bindE (upd_item a (\<lambda>i. i\<lparr>prev := prv\<rparr>) st) (\<lambda>st1.
      case prv of
        Some p \<Rightarrow>
          bindE (get_item st1 p) (\<lambda>pit.
          bindE (upd_item a (\<lambda>i. i\<lparr>next := next pit\<rparr>) st1) (\<lambda>st2.
          bindE (get_item st2 p) (\<lambda>pit2.
          bindE (case next pit2 of
                   Some n \<Rightarrow> upd_item n (\<lambda>i. i\<lparr>prev := Some a\<rparr>) st2
                 | None \<Rightarrow> Inr st2) (\<lambda>st3.
          upd_item p (\<lambda>i. i\<lparr>next := Some a\<rparr>) st3))))
      | None \<Rightarrow>
          bindE (get_item st1 a) (\<lambda>it.
            case parent it of
              None \<Rightarrow> Inl AssertFailed
            | Some sc \<Rightarrow>
                bindE (get_scene st1 sc) (\<lambda>s.
                bindE (upd_item a (\<lambda>i. i\<lparr>next := first_item s\<rparr>) st1) (\<lambda>st2.
                upd_scene sc (\<lambda>s'. s'\<lparr>first_item := Some a\<rparr>) st2))))"

text \<open>The loop \<open>while (last->next) last = last->next;\<close> of \<open>obs_scene_add\<close> and of the
  \<open>ORDER_MOVE_TOP\<close> branch. On a cyclic chain it does not return (\<open>None\<close>).\<close>

partial_function (option) walk_to_last :: "'f state \<Rightarrow> nat \<Rightarrow> (error + nat) option" where
  "walk_to_last st l =
    (case items st l of
       None \<Rightarrow> Some (Inl UseAfterFree)
     | Some it \<Rightarrow>
         (case next it of
            None \<Rightarrow> Some (Inr l)
          | Some n \<Rightarrow> walk_to_last st n))"

declare walk_to_last.simps [code]

section \<open>Reference counting of items\<close>

definition obs_sceneitem_destroy :: "ptr \<Rightarrow> 'f state \<Rightarrow> error + 'f state" where
  "obs_sceneitem_destroy item st =
    (case item of
       None \<Rightarrow> Inr st
     | Some a \<Rightarrow>
         bindE (get_item st a) (\<lambda>it.
           let st1 = (case source it of
                        Some src \<Rightarrow> emit (SourceRelease (Some src)) st
                      | None \<Rightarrow> st)
           in Inr (emit (Bfree a) (st1\<lparr>items := (items st1)(a := None)\<rparr>))))"

text \<open>\<open>os_atomic_inc_long\<close> and \<open>os_atomic_dec_long\<close> give back the new value of the
  counter; \<open>+\<close> and \<open>-\<close> on \<open>long\<close> wrap round at \<open>2^64\<close> as they do.\<close>

definition obs_sceneitem_addref :: "ptr \<Rightarrow> 'f state \<Rightarrow> error + 'f state" where
  "obs_sceneitem_addref item st =
    (case item of
       None \<Rightarrow> Inr st
     | Some a \<Rightarrow> upd_item a (\<lambda>i. i\<lparr>ref := ref i + 1\<rparr>) st)"

definition obs_sceneitem_release :: "ptr \<Rightarrow> 'f state \<Rightarrow> error + 'f state" where
  "obs_sceneitem_release item st =
    (case item of
       None \<Rightarrow> Inr st
     | Some a \<Rightarrow>
         bindE (upd_item a (\<lambda>i. i\<lparr>ref := ref i - 1\<rparr>) st) (\<lambda>st1.
         bindE (get_item st1 a) (\<lambda>it.
           if ref it = 0 then obs_sceneitem_destroy (Some a) st1 else Inr st1)))"

section \<open>Removing items\<close>

definition obs_sceneitem_remove :: "ptr \<Rightarrow> 'f state \<Rightarrow> error + 'f state" where
  "obs_sceneitem_remove item st =
    (case item of
       None \<Rightarrow> Inr st
     | Some a \<Rightarrow>
         bindE (get_item st a) (\<lambda>it0.
         let scene = parent it0 in
         bindE (case scene of Some sc \<Rightarrow> mutex_lock sc st | None \<Rightarrow> Inr st) (\<lambda>st1.
         bindE (get_item st1 a) (\<lambda>it1.
           if removed it1 then
             (case scene of Some sc \<Rightarrow> mutex_unlock sc st1 | None \<Rightarrow> Inr st1)
           else
             bindE (upd_item a (\<lambda>i. i\<lparr>removed := True\<rparr>) st1) (\<lambda>st2.
               case scene of
                 None \<Rightarrow> Inl AssertFailed
               | Some sc \<Rightarrow>
                   bindE (get_scene st2 sc) (\<lambda>s.
                     case obs_scene.source s of
                       None \<Rightarrow> Inl AssertFailed
                     | Some ssrc \<Rightarrow>
                         bindE (get_item st2 a) (\<lambda>it2.
                         bindE (signal_item_remove a
                                  (emit (SourceRemoveChild (Some ssrc) (source it2)) st2)) (\<lambda>st3.
                         bindE (detach_sceneitem a st3) (\<lambda>st4.
                         bindE (mutex_unlock sc st4) (\<lambda>st5.
                         obs_sceneitem_release (Some a) st5))))))))))"

partial_function (option) remove_all_items_loop ::
  "'f state \<Rightarrow> ptr \<Rightarrow> (error + 'f state) option" where
  "remove_all_items_loop st item =
    (case item of
       None \<Rightarrow> Some (Inr st)
     | Some del_item \<Rightarrow>
         (case get_item st del_item of
            Inl e \<Rightarrow> Some (Inl e)
          | Inr it \<Rightarrow>
              (case obs_sceneitem_remove (Some del_item) st of
                 Inl e \<Rightarrow> Some (Inl e)
               | Inr st1 \<Rightarrow> remove_all_items_loop st1 (next it))))"

declare remove_all_items_loop.simps [code]

definition remove_all_items :: "nat \<Rightarrow> 'f state \<Rightarrow> (error + 'f state) option" where
  "remove_all_items scene st =
    bindO (Some (mutex_lock scene st)) (\<lambda>st1.
    bindO (Some (get_scene st1 scene)) (\<lambda>s.
    bindO (remove_all_items_loop st1 (first_item s)) (\<lambda>st2.
    Some (mutex_unlock scene st2))))"

section \<open>Adding items\<close>

definition new_item :: "nat \<Rightarrow> nat \<Rightarrow> ('f::{zero,one}) obs_scene_item" where
  "new_item scene src =
    \<lparr>ref = 1, removed = False, parent = Some scene, source = Some src, visible = True,
     origin = Vec2 0 0, pos = Vec2 0 0, scale = Vec2 1 1, rot = 0,
     prev = None, next = None\<rparr>"

definition obs_scene_add ::
  "ptr \<Rightarrow> ptr \<Rightarrow> ('f::{zero,one}) state \<Rightarrow> (error + (ptr \<times> 'f state)) option" where
  "obs_scene_add scene source_arg st =
    (case scene of
       None \<Rightarrow> Some (Inr (None, st))
     | Some sc \<Rightarrow>
         (case source_arg of
            None \<Rightarrow>
              Some (Inr (None,
                emit (Blog LOG_ERROR ''Tried to add a NULL source to a scene'' []) st))
          | Some src \<Rightarrow>
              (let a = brk st;
                   st1 = st\<lparr>items := (items st)(a \<mapsto> new_item sc src), brk := Suc (brk st)\<rparr>;
                   st2 = emit (SourceAddref (Some src)) st1
               in
               bindO (Some (get_scene st2 sc)) (\<lambda>s0.
               bindO (Some (mutex_lock sc
                        (emit (SourceAddChild (obs_scene.source s0) (Some src)) st2))) (\<lambda>st3.
               bindO (Some (get_scene st3 sc)) (\<lambda>s.
               bindO (case first_item s of
                        None \<Rightarrow> Some (upd_scene sc (\<lambda>s'. s'\<lparr>first_item := Some a\<rparr>) st3)
                      | Some l0 \<Rightarrow>
                          bindO (walk_to_last st3 l0) (\<lambda>l.
                            Some (bindE (upd_item l (\<lambda>i. i\<lparr>next := Some a\<rparr>) st3)
                                    (upd_item a (\<lambda>i. i\<lparr>prev := Some l\<rparr>))))) (\<lambda>st4.
               bindO (Some (mutex_unlock sc st4)) (\<lambda>st5.
               bindO (Some (get_scene st5 sc)) (\<lambda>s1.
                 case obs_scene.source s1 of
                   None \<Rightarrow> Some (Inl NullDeref)
                 | Some ssrc \<Rightarrow>
                     Some (Inr (Some a,
                       emit (SignalHandlerSignal ssrc ''item_add'' (Some sc) a) st5)))))))))))"

section \<open>Reordering\<close>

definition obs_scene_addref :: "ptr \<Rightarrow> 'f state \<Rightarrow> error + 'f state" where
  "obs_scene_addref scene st =
    (case scene of
       None \<Rightarrow> Inr st
     | Some sc \<Rightarrow> bindE (get_scene st sc) (\<lambda>s. Inr (emit (SourceAddref (obs_scene.source s)) st)))"

definition obs_scene_release :: "ptr \<Rightarrow> 'f state \<Rightarrow> error + 'f state" where
  "obs_scene_release scene st =
    (case scene of
       None \<Rightarrow> Inr st
     | Some sc \<Rightarrow> bindE (get_scene st sc) (\<lambda>s. Inr (emit (SourceRelease (obs_scene.source s)) st)))"

definition obs_sceneitem_setorder ::
  "ptr \<Rightarrow> order_movement \<Rightarrow> 'f state \<Rightarrow> (error + 'f state) option" where
  "obs_sceneitem_setorder item movement st =
    (case item of
       None \<Rightarrow> Some (Inr st)
     | Some a \<Rightarrow>
         bindO (Some (get_item st a)) (\<lambda>it.
         let scene = parent it in
         bindO (Some (obs_scene_addref scene st)) (\<lambda>st1.
           case scene of
             None \<Rightarrow> Some (Inl NullDeref)
           | Some sc \<Rightarrow>
               bindO (Some (mutex_lock sc st1)) (\<lambda>st2.
               bindO (Some (detach_sceneitem a st2)) (\<lambda>st3.
               bindO (case movement of
                        ORDER_MOVE_UP \<Rightarrow>
                          Some (bindE (get_item st3 a) (\<lambda>i. attach_sceneitem a (prev i) st3))
                      | ORDER_MOVE_DOWN \<Rightarrow>
                          Some (bindE (get_item st3 a) (\<lambda>i. attach_sceneitem a (next i) st3))
                      | ORDER_MOVE_TOP \<Rightarrow>
                          bindO (Some (get_item st3 a)) (\<lambda>i.
                          bindO (case next i of
                                   None \<Rightarrow> Some (Inr (prev i))
                                 | Some l0 \<Rightarrow>
                                     bindO (walk_to_last st3 l0) (\<lambda>l. Some (Inr (Some l)))) (\<lambda>last.
                            Some (attach_sceneitem a last st3)))
                      | ORDER_MOVE_BOTTOM \<Rightarrow> Some (attach_sceneitem a None st3)) (\<lambda>st4.
               bindO (Some (mutex_unlock sc st4)) (\<lambda>st5.
               Some (obs_scene_release scene st5))))))))"

section \<open>Render traversal\<close>

text \<open>\<open>obs_source_removed\<close> is a query of the source runtime and \<open>RAD\<close> a macro of
  graphics/math-defs.h; both are parameters. The loop body appends the calls of the matrix
  stack and of the source's render entry point in program order.\<close>

definition emits :: "'f event list \<Rightarrow> 'f state \<Rightarrow> 'f state" where
  "emits es st = st\<lparr>trace := trace st @ es\<rparr>"

partial_function (option) scene_video_render_loop ::
  "(ptr \<Rightarrow> bool) \<Rightarrow> ('f \<Rightarrow> 'f) \<Rightarrow> ('f::{zero,one,uminus}) state \<Rightarrow> ptr
    \<Rightarrow> (error + 'f state) option" where
  "scene_video_render_loop obs_source_removed RAD st item =
    (case item of
       None \<Rightarrow> Some (Inr st)
     | Some a \<Rightarrow>
         (case get_item st a of
            Inl e \<Rightarrow> Some (Inl e)
          | Inr it \<Rightarrow>
              if obs_source_removed (source it) then
                (case obs_sceneitem_remove (Some a) st of
                   Inl e \<Rightarrow> Some (Inl e)
                 | Inr st1 \<Rightarrow> scene_video_render_loop obs_source_removed RAD st1 (next it))
              else
                scene_video_render_loop obs_source_removed RAD
                  (emits
                     [GsMatrixPush,
                      GsMatrixTranslate3f (vec2_x (origin it)) (vec2_y (origin it)) 0,
                      GsMatrixScale3f (vec2_x (scale it)) (vec2_y (scale it)) 1,
                      GsMatrixRotaa4f 0 0 1 (RAD (- rot it)),
                      GsMatrixTranslate3f (- vec2_x (pos it)) (- vec2_y (pos it)) 0,
                      SourceVideoRender (source it),
                      GsMatrixPop] st)
                  (next it)))"

declare scene_video_render_loop.simps [code]

definition scene_video_render ::
  "(ptr \<Rightarrow> bool) \<Rightarrow> ('f \<Rightarrow> 'f) \<Rightarrow> nat \<Rightarrow> ('f::{zero,one,uminus}) state
    \<Rightarrow> (error + 'f state) option" where
  "scene_video_render obs_source_removed RAD scene st =
    bindO (Some (mutex_lock scene st)) (\<lambda>st1.
    bindO (Some (get_scene st1 scene)) (\<lambda>s.
    bindO (scene_video_render_loop obs_source_removed RAD st1 (first_item s)) (\<lambda>st2.
    Some (mutex_unlock scene st2))))"

section \<open>Persistence\<close>

text \<open>\<open>obs_source_getname\<close> and \<open>obs_get_source_by_name\<close> belong to the source runtime and
  are parameters, as are the conversions between float and double that C inserts at
  \<open>obs_data_setdouble\<close> and at the cast \<open>(float)obs_data_getdouble(...)\<close>.\<close>

definition scene_save_item ::
  "(ptr \<Rightarrow> string) \<Rightarrow> ('f \<Rightarrow> 'd) \<Rightarrow> ('f, 'd) item_data list \<Rightarrow> 'f obs_scene_item
    \<Rightarrow> ('f, 'd) item_data list" where
  "scene_save_item obs_source_getname to_double array it =
    array @
      [\<lparr>data_name = obs_source_getname (source it), data_visible = visible it,
        data_rot = to_double (rot it), data_origin = origin it, data_pos = pos it,
        data_scale = scale it\<rparr>]"

partial_function (option) scene_save_loop ::
  "(ptr \<Rightarrow> string) \<Rightarrow> ('f \<Rightarrow> 'd) \<Rightarrow> 'f state \<Rightarrow> ('f, 'd) item_data list \<Rightarrow> ptr
    \<Rightarrow> (error + ('f, 'd) item_data list) option" where
  "scene_save_loop obs_source_getname to_double st array item =
    (case item of
       None \<Rightarrow> Some (Inr array)
     | Some a \<Rightarrow>
         (case get_item st a of
            Inl e \<Rightarrow> Some (Inl e)
          | Inr it \<Rightarrow>
              scene_save_loop obs_source_getname to_double st
                (scene_save_item obs_source_getname to_double array it) (next it)))"

declare scene_save_loop.simps [code]

definition scene_save ::
  "(ptr \<Rightarrow> string) \<Rightarrow> ('f \<Rightarrow> 'd) \<Rightarrow> nat \<Rightarrow> 'f state
    \<Rightarrow> (error + (('f, 'd) item_data list \<times> 'f state)) option" where
  "scene_save obs_source_getname to_double scene st =
    bindO (Some (mutex_lock scene st)) (\<lambda>st1.
    bindO (Some (get_scene st1 scene)) (\<lambda>s.
    bindO (scene_save_loop obs_source_getname to_double st1 [] (first_item s)) (\<lambda>array.
    bindO (Some (mutex_unlock scene st1)) (\<lambda>st2.
    Some (Inr (array, st2))))))"

definition scene_load_item ::
  "(string \<Rightarrow> ptr) \<Rightarrow> ('d \<Rightarrow> 'f) \<Rightarrow> nat \<Rightarrow> ('f, 'd) item_data \<Rightarrow> ('f::{zero,one}) state
    \<Rightarrow> (error + 'f state) option" where
  "scene_load_item obs_get_source_by_name to_float scene item_data st =
    (case obs_get_source_by_name (data_name item_data) of
       None \<Rightarrow>
         Some (Inr (emit (Blog LOG_WARNING ''[scene_load_item] Source %s not found!''
                      [data_name item_data]) st))
     | Some src \<Rightarrow>
         bindO (obs_scene_add (Some scene) (Some src) st) (\<lambda>(item, st1).
           case item of
             None \<Rightarrow> Some (Inl NullDeref)
           | Some a \<Rightarrow>
               Some (
                 bindE (upd_item a (\<lambda>i. i\<lparr>rot := to_float (data_rot item_data)\<rparr>) st1) (\<lambda>st2.
                 bindE (upd_item a (\<lambda>i. i\<lparr>visible := data_visible item_data\<rparr>) st2) (\<lambda>st3.
                 bindE (upd_item a (\<lambda>i. i\<lparr>origin := data_origin item_data\<rparr>) st3) (\<lambda>st4.
                 bindE (upd_item a (\<lambda>i. i\<lparr>pos := data_pos item_data\<rparr>) st4) (\<lambda>st5.
                 bindE (upd_item a (\<lambda>i. i\<lparr>scale := data_scale item_data\<rparr>) st5) (\<lambda>st6.
                 Inr (emit (SourceRelease (Some src)) st6)))))))))"

fun scene_load_items ::
  "(string \<Rightarrow> ptr) \<Rightarrow> ('d \<Rightarrow> 'f) \<Rightarrow> nat \<Rightarrow> ('f, 'd) item_data list \<Rightarrow> ('f::{zero,one}) state
    \<Rightarrow> (error + 'f state) option" where
  "scene_load_items obs_get_source_by_name to_float scene [] st = Some (Inr st)"
| "scene_load_items obs_get_source_by_name to_float scene (item_data # rest) st =
    bindO (scene_load_item obs_get_source_by_name to_float scene item_data st)
      (scene_load_items obs_get_source_by_name to_float scene rest)"

definition scene_load ::
  "(string \<Rightarrow> ptr) \<Rightarrow> ('d \<Rightarrow> 'f) \<Rightarrow> nat \<Rightarrow> ('f, 'd) item_data list option
    \<Rightarrow> ('f::{zero,one}) state \<Rightarrow> (error + 'f state) option" where
  "scene_load obs_get_source_by_name to_float scene settings_items st =
    bindO (remove_all_items scene st) (\<lambda>st1.
      case settings_items of
        None \<Rightarrow> Some (Inr st1)
      | Some array \<Rightarrow> scene_load_items obs_get_source_by_name to_float scene array st1)"

section \<open>Accessors of an item\<close>

text \<open>The getters that write through an output pointer take the old content of the
  output argument and return its new content.\<close>

definition obs_sceneitem_getscene :: "ptr \<Rightarrow> 'f state \<Rightarrow> error + ptr" where
  "obs_sceneitem_getscene item st =
    (case item of None \<Rightarrow> Inr None | Some a \<Rightarrow> bindE (get_item st a) (\<lambda>i. Inr (parent i)))"

definition obs_sceneitem_getsource :: "ptr \<Rightarrow> 'f state \<Rightarrow> error + ptr" where
  "obs_sceneitem_getsource item st =
    (case item of None \<Rightarrow> Inr None | Some a \<Rightarrow> bindE (get_item st a) (\<lambda>i. Inr (source i)))"

definition obs_sceneitem_setpos :: "ptr \<Rightarrow> 'f vec2 \<Rightarrow> 'f state \<Rightarrow> error + 'f state" where
  "obs_sceneitem_setpos item v st =
    (case item of None \<Rightarrow> Inr st | Some a \<Rightarrow> upd_item a (\<lambda>i. i\<lparr>pos := v\<rparr>) st)"

definition obs_sceneitem_setrot :: "ptr \<Rightarrow> 'f \<Rightarrow> 'f state \<Rightarrow> error + 'f state" where
  "obs_sceneitem_setrot item r st =
    (case item of None \<Rightarrow> Inr st | Some a \<Rightarrow> upd_item a (\<lambda>i. i\<lparr>rot := r\<rparr>) st)"

definition obs_sceneitem_setorigin :: "ptr \<Rightarrow> 'f vec2 \<Rightarrow> 'f state \<Rightarrow> error + 'f state" where
  "obs_sceneitem_setorigin item v st =
    (case item of None \<Rightarrow> Inr st | Some a \<Rightarrow> upd_item a (\<lambda>i. i\<lparr>origin := v\<rparr>) st)"

definition obs_sceneitem_setscale :: "ptr \<Rightarrow> 'f vec2 \<Rightarrow> 'f state \<Rightarrow> error + 'f state" where
  "obs_sceneitem_setscale item v st =
    (case item of None \<Rightarrow> Inr st | Some a \<Rightarrow> upd_item a (\<lambda>i. i\<lparr>scale := v\<rparr>) st)"

definition obs_sceneitem_getpos :: "ptr \<Rightarrow> 'f vec2 \<Rightarrow> 'f state \<Rightarrow> error + 'f vec2" where
  "obs_sceneitem_getpos item out st =
    (case item of None \<Rightarrow> Inr out | Some a \<Rightarrow> bindE (get_item st a) (\<lambda>i. Inr (pos i)))"

definition obs_sceneitem_getrot :: "ptr \<Rightarrow> ('f::zero) state \<Rightarrow> error + 'f" where
  "obs_sceneitem_getrot item st =
    (case item of None \<Rightarrow> Inr 0 | Some a \<Rightarrow> bindE (get_item st a) (\<lambda>i. Inr (rot i)))"

definition obs_sceneitem_getorigin :: "ptr \<Rightarrow> 'f vec2 \<Rightarrow> 'f state \<Rightarrow> error + 'f vec2" where
  "obs_sceneitem_getorigin item out st =
    (case item of None \<Rightarrow> Inr out | Some a \<Rightarrow> bindE (get_item st a) (\<lambda>i. Inr (origin i)))"

definition obs_sceneitem_getscale :: "ptr \<Rightarrow> 'f vec2 \<Rightarrow> 'f state \<Rightarrow> error + 'f vec2" where
  "obs_sceneitem_getscale item out st =
    (case item of None \<Rightarrow> Inr out | Some a \<Rightarrow> bindE (get_item st a) (\<lambda>i. Inr (scale i)))"

section \<open>Abstraction of the store and test drivers\<close>

text \<open>\<open>item_chain h p c xs q\<close>: starting at pointer \<open>c\<close>, the \<open>next\<close> fields of the store
  \<open>h\<close> lead through exactly the addresses \<open>xs\<close> and end in \<open>q\<close>, and every \<open>prev\<close> field
  points back to the address before it (\<open>p\<close> for the first).\<close>

fun item_chain ::
  "(nat \<rightharpoonup> 'f obs_scene_item) \<Rightarrow> ptr \<Rightarrow> ptr \<Rightarrow> nat list \<Rightarrow> ptr \<Rightarrow> bool" where
  "item_chain h p c [] q = (c = q)"
| "item_chain h p c (a # as) q =
    (c = Some a \<and>
     (case h a of
        None \<Rightarrow> False
      | Some it \<Rightarrow> prev it = p \<and> item_chain h (Some a) (next it) as q))"

text \<open>\<open>scene_items st sc xs\<close>: scene \<open>sc\<close> is allocated and its list, read from
  \<open>first_item\<close> to the end, is \<open>xs\<close> (paint order), a well-formed doubly-linked list
  without repetition.\<close>

definition scene_items :: "'f state \<Rightarrow> nat \<Rightarrow> nat list \<Rightarrow> bool" where
  "scene_items st sc xs =
    ((case scenes st sc of
        None \<Rightarrow> False
      | Some s \<Rightarrow> item_chain (items st) None (first_item s) xs None) \<and> distinct xs)"

text \<open>A sequence of \<open>obs_sceneitem_addref\<close> and \<open>obs_sceneitem_release\<close> calls on one item,
  stopping at the first error.\<close>

datatype ref_call = Addref | Release

fun ref_calls :: "ref_call list \<Rightarrow> nat \<Rightarrow> 'f state \<Rightarrow> error + 'f state" where
  "ref_calls [] a st = Inr st"
| "ref_calls (c # cs) a st =
    bindE (case c of
             Addref \<Rightarrow> obs_sceneitem_addref (Some a) st
           | Release \<Rightarrow> obs_sceneitem_release (Some a) st) (ref_calls cs a)"

text \<open>Number of \<open>Addref\<close> calls minus number of \<open>Release\<close> calls: the change of the
  reference count that the calls make when none of them destroys the item.\<close>

definition balance :: "ref_call list \<Rightarrow> int" where
  "balance cs = int (count_list cs Addref) - int (count_list cs Release)"

text \<open>Example states: a scene at address 10 whose host source is 100, empty, and after
  \<open>obs_scene_add\<close> of the sources 200 and 201 (the trace is cleared in the examples
  with items).\<close>

definition ex_scene :: "int state" where
  "ex_scene =
    \<lparr>items = Map.empty,
     scenes = [10 \<mapsto> \<lparr>obs_scene.source = Some 100, first_item = None\<rparr>],
     brk = 0, trace = []\<rparr>"

definition ex_one :: "int state" where
  "ex_one =
    \<lparr>items = [0 \<mapsto> new_item 10 200],
     scenes = [10 \<mapsto> \<lparr>obs_scene.source = Some 100, first_item = Some 0\<rparr>],
     brk = 1, trace = []\<rparr>"

definition ex_two :: "int state" where
  "ex_two =
    \<lparr>items = [0 \<mapsto> (new_item 10 200)\<lparr>next := Some 1\<rparr>,
              1 \<mapsto> (new_item 10 201)\<lparr>prev := Some 0\<rparr>],
     scenes = [10 \<mapsto> \<lparr>obs_scene.source = Some 100, first_item = Some 0\<rparr>],
     brk = 2, trace = []\<rparr>"

text \<open>Pointer to the last address of \<open>xs\<close>, or \<open>p\<close> for the empty list; pointer to the first address of \<open>xs\<close>, or \<open>q\<close>.\<close>

definition last_ptr :: "ptr \<Rightarrow> nat list \<Rightarrow> ptr" where
  "last_ptr p xs = (if xs = [] then p else Some (last xs))"

definition head_ptr :: "nat list \<Rightarrow> ptr \<Rightarrow> ptr" where
  "head_ptr xs q = (case xs of [] \<Rightarrow> q | a # as \<Rightarrow> Some a)"

text \<open>An item without its links: two items with the same payload differ at most in \<open>prev\<close> and \<open>next\<close>.\<close>

definition payload :: "'f obs_scene_item \<Rightarrow> 'f obs_scene_item" where
  "payload it = it\<lparr>prev := None, next := None\<rparr>"

text \<open>The store after \<open>p->next = n\<close> and after \<open>n->prev = p\<close>, where the pointer written through is NULL-checked and allocated.\<close>

definition set_next :: "ptr \<Rightarrow> ptr \<Rightarrow> (nat \<rightharpoonup> 'f obs_scene_item) \<Rightarrow> (nat \<rightharpoonup> 'f obs_scene_item)" where
  "set_next p n h =
    (case p of None \<Rightarrow> h | Some b \<Rightarrow> (case h b of None \<Rightarrow> h | Some i \<Rightarrow> h(b \<mapsto> i\<lparr>next := n\<rparr>)))"

definition set_prev :: "ptr \<Rightarrow> ptr \<Rightarrow> (nat \<rightharpoonup> 'f obs_scene_item) \<Rightarrow> (nat \<rightharpoonup> 'f obs_scene_item)" where
  "set_prev n p h =
    (case n of None \<Rightarrow> h | Some b \<Rightarrow> (case h b of None \<Rightarrow> h | Some i \<Rightarrow> h(b \<mapsto> i\<lparr>prev := p\<rparr>)))"

text \<open>The calls \<open>obs_sceneitem_remove\<close> makes for a linked item \<open>it\<close> at address \<open>a\<close> of scene \<open>sc\<close> with host source \<open>ssrc\<close>; the release destroys the item when the list held the only reference.\<close>

definition remove_calls :: "nat \<Rightarrow> nat \<Rightarrow> nat \<Rightarrow> 'f obs_scene_item \<Rightarrow> 'f event list" where
  "remove_calls sc ssrc a it =
    [MutexLock sc, SourceRemoveChild (Some ssrc) (source it),
     SignalHandlerSignal ssrc ''item_remove'' (Some sc) a, MutexUnlock sc] @
    (if ref it = 1
     then (case source it of Some src \<Rightarrow> [SourceRelease (Some src)] | None \<Rightarrow> []) @ [Bfree a]
     else [])"

text \<open>\<open>scene_ok st sc xs\<close>: the list of scene \<open>sc\<close> is \<open>xs\<close> and every item in it names \<open>sc\<close> as parent and is not flagged removed (the state in which \<open>obs_scene_add\<close> and \<open>obs_sceneitem_remove\<close> leave a scene).\<close>

definition scene_ok :: "'f state \<Rightarrow> nat \<Rightarrow> nat list \<Rightarrow> bool" where
  "scene_ok st sc xs =
    (scene_items st sc xs \<and>
     (\<forall>a\<in>set xs. case items st a of
                     None \<Rightarrow> False
                   | Some it \<Rightarrow> parent it = Some sc \<and> \<not> removed it))"

text \<open>The scene of \<open>ex_two\<close> after \<open>obs_sceneitem_addref\<close> on item 1: a second holder
  besides the list.\<close>

definition ex_held :: "int state" where
  "ex_held =
    \<lparr>items = [0 \<mapsto> (new_item 10 200)\<lparr>next := Some 1\<rparr>,
              1 \<mapsto> (new_item 10 201)\<lparr>prev := Some 0, ref := 2\<rparr>],
     scenes = [10 \<mapsto> \<lparr>obs_scene.source = Some 100, first_item = Some 0\<rparr>],
     brk = 2, trace = []\<rparr>"

text \<open>The calls of \<open>obs_sceneitem_remove\<close> on the item at address \<open>a\<close>, read from the state \<open>st\<close>.\<close>

definition remove_calls_at :: "'f state \<Rightarrow> nat \<Rightarrow> nat \<Rightarrow> nat \<Rightarrow> 'f event list" where
  "remove_calls_at st sc ssrc a =
    (case items st a of None \<Rightarrow> [] | Some it \<Rightarrow> remove_calls sc ssrc a it)"

text \<open>The allocator has handed out only addresses below \<open>brk\<close>: no item lives at or above it.\<close>

definition heap_fresh :: "'f state \<Rightarrow> bool" where
  "heap_fresh st = (\<forall>b. brk st \<le> b \<longrightarrow> items st b = None)"

text \<open>Item \<open>a\<close> is gone from its scene: freed, or flagged removed with its parent cleared.\<close>

definition detached :: "'f state \<Rightarrow> nat \<Rightarrow> bool" where
  "detached st a =
    (case items st a of None \<Rightarrow> True | Some it \<Rightarrow> removed it \<and> parent it = None)"

text \<open>What \<open>scene_load_item\<close> makes of a record whose name resolves: the item created by \<open>obs_scene_add\<close> with the five values of the record written over it (links apart); nothing for a record whose name does not resolve.\<close>

definition loaded_item ::
  "(string \<Rightarrow> ptr) \<Rightarrow> ('d \<Rightarrow> 'f) \<Rightarrow> nat \<Rightarrow> ('f, 'd) item_data \<Rightarrow> ('f::{zero,one}) obs_scene_item option" where
  "loaded_item obs_get_source_by_name to_float sc r =
    map_option
      (\<lambda>src. (new_item sc src)\<lparr>rot := to_float (data_rot r), visible := data_visible r,
                origin := data_origin r, pos := data_pos r, scale := data_scale r\<rparr>)
      (obs_get_source_by_name (data_name r))"

text \<open>The calls that loading the records makes, in order: for a record whose name resolves the calls of \<open>obs_scene_add\<close> for the next free address and the release of the looked-up source, otherwise one logged warning.\<close>

fun load_calls ::
  "(string \<Rightarrow> ptr) \<Rightarrow> nat \<Rightarrow> nat \<Rightarrow> nat \<Rightarrow> ('f, 'd) item_data list \<Rightarrow> 'f event list" where
  "load_calls obs_get_source_by_name sc ssrc a [] = []"
| "load_calls obs_get_source_by_name sc ssrc a (r # rs) =
    (case obs_get_source_by_name (data_name r) of
       None \<Rightarrow>
         Blog LOG_WARNING ''[scene_load_item] Source %s not found!'' [data_name r] #
         load_calls obs_get_source_by_name sc ssrc a rs
     | Some src \<Rightarrow>
         [SourceAddref (Some src), SourceAddChild (Some ssrc) (Some src), MutexLock sc,
          MutexUnlock sc, SignalHandlerSignal ssrc ''item_add'' (Some sc) a,
          SourceRelease (Some src)] @
         load_calls obs_get_source_by_name sc ssrc (Suc a) rs)"

text \<open>The records \<open>scene_save_item\<close> writes for the items at the addresses \<open>xs\<close>, in this order.\<close>

definition saved_records ::
  "(ptr \<Rightarrow> string) \<Rightarrow> ('f \<Rightarrow> 'd) \<Rightarrow> 'f state \<Rightarrow> nat list \<Rightarrow> ('f, 'd) item_data list" where
  "saved_records obs_source_getname to_double st xs =
    concat (map (\<lambda>a. case items st a of
                        None \<Rightarrow> []
                      | Some it \<Rightarrow> scene_save_item obs_source_getname to_double [] it) xs)"

text \<open>The values of an item that are saved and loaded besides the name: rot, visible, origin, pos and scale.\<close>

definition item_transform :: "'f obs_scene_item \<Rightarrow> 'f \<times> bool \<times> 'f vec2 \<times> 'f vec2 \<times> 'f vec2" where
  "item_transform it = (rot it, visible it, origin it, pos it, scale it)"

text \<open>Three records; with \<open>ex_registry\<close> the name of the second one does not resolve.\<close>

definition ex_records :: "(int, int) item_data list" where
  "ex_records =
    [\<lparr>data_name = ''a'', data_visible = False, data_rot = 5, data_origin = Vec2 1 2,
      data_pos = Vec2 3 4, data_scale = Vec2 5 6\<rparr>,
     \<lparr>data_name = ''b'', data_visible = True, data_rot = 6, data_origin = Vec2 0 0,
      data_pos = Vec2 0 0, data_scale = Vec2 1 1\<rparr>,
     \<lparr>data_name = ''c'', data_visible = True, data_rot = 7, data_origin = Vec2 1 1,
      data_pos = Vec2 2 2, data_scale = Vec2 3 3\<rparr>]"

definition ex_registry :: "string \<Rightarrow> ptr" where
  "ex_registry n = (if n = ''a'' then Some 300 else if n = ''c'' then Some 301 else None)"

text \<open>Names of the sources 200 and 201, and the registry that resolves the names of the sources 200, 201 and 202.\<close>

definition ex_getname :: "ptr \<Rightarrow> string" where
  "ex_getname p = (if p = Some 200 then ''x'' else ''y'')"

definition ex_by_name :: "string \<Rightarrow> ptr" where
  "ex_by_name n =
    (if n = ''x'' then Some 200 else if n = ''y'' then Some 201
     else if n = ''z'' then Some 202 else None)"

text \<open>Two items with different sources and different values in every saved field, and the
  records that describe them.\<close>

definition ex_pair :: "int state" where
  "ex_pair =
    \<lparr>items = [0 \<mapsto> (new_item 10 200)\<lparr>visible := False, origin := Vec2 1 2, pos := Vec2 6 7,
                     scale := Vec2 3 4, rot := 5, next := Some 1\<rparr>,
              1 \<mapsto> (new_item 10 201)\<lparr>origin := Vec2 8 9, pos := Vec2 2 3, scale := Vec2 1 5,
                     rot := 11, prev := Some 0\<rparr>],
     scenes = [10 \<mapsto> \<lparr>obs_scene.source = Some 100, first_item = Some 0\<rparr>],
     brk = 2, trace = []\<rparr>"

definition ex_pair_records :: "(int, int) item_data list" where
  "ex_pair_records =
    [\<lparr>data_name = ''x'', data_visible = False, data_rot = 5, data_origin = Vec2 1 2,
      data_pos = Vec2 6 7, data_scale = Vec2 3 4\<rparr>,
     \<lparr>data_name = ''y'', data_visible = True, data_rot = 11, data_origin = Vec2 8 9,
      data_pos = Vec2 2 3, data_scale = Vec2 1 5\<rparr>]"

text \<open>The source of the item at \<open>a\<close> reports removed (\<open>obs_source_removed\<close>).\<close>

definition source_gone :: "(ptr \<Rightarrow> bool) \<Rightarrow> 'f state \<Rightarrow> nat \<Rightarrow> bool" where
  "source_gone obs_source_removed st a =
    (case items st a of None \<Rightarrow> False | Some it \<Rightarrow> obs_source_removed (source it))"

text \<open>What the claim expects for an item that is drawn: a matrix push, the translation by
  the origin, the scaling by the scale, the rotation about the z axis by the negated
  rotation, the translation by the negated position, one call of the render entry point of
  the source, and the matrix pop. Visibility plays no part.\<close>

definition drawn_calls ::
  "('f \<Rightarrow> 'f) \<Rightarrow> ('f::{zero,one,uminus}) obs_scene_item \<Rightarrow> 'f event list" where
  "drawn_calls RAD it =
    GsMatrixPush #
    GsMatrixTranslate3f (vec2_x (origin it)) (vec2_y (origin it)) 0 #
    GsMatrixScale3f (vec2_x (scale it)) (vec2_y (scale it)) 1 #
    GsMatrixRotaa4f 0 0 1 (RAD (- rot it)) #
    GsMatrixTranslate3f (- vec2_x (pos it)) (- vec2_y (pos it)) 0 #
    SourceVideoRender (source it) #
    [GsMatrixPop]"

text \<open>The calls one iteration of the render loop makes for the item at \<open>a\<close>: those of \<open>obs_sceneitem_remove\<close> when its source reports removed, otherwise the bracketed transform and the render call.\<close>

definition visit_calls ::
  "(ptr \<Rightarrow> bool) \<Rightarrow> ('f \<Rightarrow> 'f) \<Rightarrow> ('f::{zero,one,uminus}) state \<Rightarrow> nat \<Rightarrow> nat \<Rightarrow> nat
    \<Rightarrow> 'f event list" where
  "visit_calls obs_source_removed RAD st sc ssrc a =
    (case items st a of
       None \<Rightarrow> []
     | Some it \<Rightarrow>
         if obs_source_removed (source it) then remove_calls sc ssrc a it
         else drawn_calls RAD it)"

text \<open>Three items in the scene; item 0 carries a transform and is not visible, item 1 is the one whose source will report removed.\<close>

definition ex_three :: "int state" where
  "ex_three =
    \<lparr>items = [0 \<mapsto> (new_item 10 200)\<lparr>visible := False, origin := Vec2 1 2, pos := Vec2 6 7,
                     scale := Vec2 3 4, rot := 5, next := Some 1\<rparr>,
              1 \<mapsto> (new_item 10 201)\<lparr>prev := Some 0, next := Some 2\<rparr>,
              2 \<mapsto> (new_item 10 202)\<lparr>prev := Some 1\<rparr>],
     scenes = [10 \<mapsto> \<lparr>obs_scene.source = Some 100, first_item = Some 0\<rparr>],
     brk = 3, trace = []\<rparr>"

section \<open>Evaluation of the model\<close>

lemmas model_defs =
  obs_scene_add_def obs_sceneitem_setorder_def attach_sceneitem_def detach_sceneitem_def
  get_item_def get_scene_def upd_item_def upd_scene_def mutex_lock_def mutex_unlock_def
  emit_def emits_def new_item_def obs_scene_addref_def obs_scene_release_def
  obs_sceneitem_remove_def obs_sceneitem_release_def obs_sceneitem_destroy_def
  signal_item_remove_def obs_sceneitem_addref_def Let_def

lemma ex_one_reachable:
  "obs_scene_add (Some 10) (Some 200) ex_scene =
     Some (Inr (Some 0, ex_one\<lparr>trace :=
       [SourceAddref (Some 200), SourceAddChild (Some 100) (Some 200), MutexLock 10,
        MutexUnlock 10, SignalHandlerSignal 100 ''item_add'' (Some 10) 0]\<rparr>))"
  by (simp add: model_defs ex_scene_def ex_one_def fun_eq_iff)

lemma ex_two_reachable:
  "obs_scene_add (Some 10) (Some 201) ex_one =
     Some (Inr (Some 1, ex_two\<lparr>trace :=
       [SourceAddref (Some 201), SourceAddChild (Some 100) (Some 201), MutexLock 10,
        MutexUnlock 10, SignalHandlerSignal 100 ''item_add'' (Some 10) 1]\<rparr>))"
  by (simp add: model_defs ex_one_def ex_two_def walk_to_last.simps fun_eq_iff)

section \<open>Reordering at the extremes\<close>

text \<open>
  C1 (the code fails here). Claim: \<open>setorder\<close> with movement up on the head item, or down
  on the tail item, attaches the item at the boundary and completes, the non-empty parent
  that \<open>attach_sceneitem\<close> asserts being available on every path.
  In the code \<open>detach_sceneitem\<close> sets \<open>item->parent = NULL\<close> and leaves \<open>item->prev\<close> and
  \<open>item->next\<close> as they were; at an extreme the pointer passed to \<open>attach_sceneitem\<close> is NULL,
  so its branch \<open>assert(item->parent != NULL)\<close> is reached with an empty parent. On the
  scene holding the single item 0 both movements stop at the assertion.
\<close>

theorem setorder_up_down_at_extreme_assert:
  "obs_sceneitem_setorder (Some 0) ORDER_MOVE_UP ex_one = Some (Inl AssertFailed) \<and>
   obs_sceneitem_setorder (Some 0) ORDER_MOVE_DOWN ex_one = Some (Inl AssertFailed) \<and>
   obs_sceneitem_setorder (Some 0) ORDER_MOVE_UP ex_two = Some (Inl AssertFailed) \<and>
   obs_sceneitem_setorder (Some 1) ORDER_MOVE_DOWN ex_two = Some (Inl AssertFailed)"
  by (simp add: model_defs ex_one_def ex_two_def)

text \<open>
  C2 (the code fails here). Claim: movement up on an item that is not the head re-attaches
  it after its former predecessor's predecessor, one slot closer to the head.
  The code calls \<open>attach_sceneitem(item, item->prev)\<close>, and \<open>item->prev\<close> still is the
  former predecessor itself: on the scene with the items 0, 1 moving item 1 up leaves the
  order 0, 1 (and not 1, 0), and clears the parent of item 1.
\<close>

theorem setorder_up_keeps_order:
  "scene_items ex_two 10 [0, 1] \<and>
   (\<exists>st. obs_sceneitem_setorder (Some 1) ORDER_MOVE_UP ex_two = Some (Inr st) \<and>
      scene_items st 10 [0, 1] \<and> \<not> scene_items st 10 [1, 0] \<and>
      map_option parent (items st 1) = Some None)"
  by (simp add: model_defs ex_two_def scene_items_def)

text \<open>
  C3 (the code fails here). Claim: each of the four movements keeps the number and the set
  of the items, top puts the item last and bottom puts it first.
  Movement bottom calls \<open>attach_sceneitem(item, NULL)\<close> right after \<open>detach_sceneitem\<close> has
  cleared the parent, so it always stops at \<open>assert(item->parent != NULL)\<close>; so does
  movement top on the only item of a scene.
\<close>

theorem setorder_bottom_assert:
  "obs_sceneitem_setorder (Some 1) ORDER_MOVE_BOTTOM ex_two = Some (Inl AssertFailed) \<and>
   obs_sceneitem_setorder (Some 0) ORDER_MOVE_BOTTOM ex_two = Some (Inl AssertFailed) \<and>
   obs_sceneitem_setorder (Some 0) ORDER_MOVE_TOP ex_one = Some (Inl AssertFailed)"
  by (simp add: model_defs ex_one_def ex_two_def)

section \<open>Accessors on the empty item\<close>

text \<open>
  C10. For the empty (NULL) item every accessor is inert: the four setters return the
  state unchanged, the three getters with an output argument leave the output as it was,
  \<open>getrot\<close> returns 0, and \<open>getscene\<close> and \<open>getsource\<close> return NULL; none of them reads the
  store.
\<close>

theorem accessors_null_item:
  "obs_sceneitem_setpos None v st = Inr st \<and>
   obs_sceneitem_setrot None r st = Inr st \<and>
   obs_sceneitem_setorigin None v st = Inr st \<and>
   obs_sceneitem_setscale None v st = Inr st \<and>
   obs_sceneitem_getpos None out st = Inr out \<and>
   obs_sceneitem_getorigin None out st = Inr out \<and>
   obs_sceneitem_getscale None out st = Inr out \<and>
   obs_sceneitem_getrot None st = Inr 0 \<and>
   obs_sceneitem_getscene None st = Inr None \<and>
   obs_sceneitem_getsource None st = Inr None"
  by (simp add: obs_sceneitem_setpos_def obs_sceneitem_setrot_def obs_sceneitem_setorigin_def
      obs_sceneitem_setscale_def obs_sceneitem_getpos_def obs_sceneitem_getorigin_def
      obs_sceneitem_getscale_def obs_sceneitem_getrot_def obs_sceneitem_getscene_def
      obs_sceneitem_getsource_def)

section \<open>Reference counting\<close>

lemma balance_simps [simp]: "balance [] = 0" "balance (Addref # cs) = balance cs + 1"
  "balance (Release # cs) = balance cs - 1"
  by (simp_all add: balance_def)

lemma bindE_Inr [simp]: "bindE m Inr = m"
  by (cases m) simp_all

lemma ref_calls_Nil [simp]: "ref_calls [] a = Inr"
  by (rule ext) simp

lemma ref_calls_append:
  "ref_calls (cs @ ds) a st = bindE (ref_calls cs a st) (ref_calls ds a)"
proof (induction cs arbitrary: st)
  case Nil show ?case by simp
next
  case (Cons c cs)
  show ?case
    by (cases "case c of Addref \<Rightarrow> obs_sceneitem_addref (Some a) st
           | Release \<Rightarrow> obs_sceneitem_release (Some a) st") (simp_all add: Cons.IH)
qed

lemma long_minus_one_eq_0 [simp]: "(x - 1 = 0) = (x = (1::long))"
  by (simp add: eq_iff_diff_eq_0[symmetric])

lemma long_of_int_nonzero: "0 < k \<Longrightarrow> k < 2 ^ 64 \<Longrightarrow> (word_of_int k :: long) \<noteq> 0"
proof
  assume k: "0 < k" "k < 2 ^ 64" and z: "(word_of_int k :: long) = 0"
  from z have "(2::int) ^ 64 dvd k" by (simp add: word_of_int_eq_0_iff)
  then have "(2::int) ^ 64 \<le> k" using k(1) by (rule zdvd_imp_le)
  then show False using k(2) by simp
qed

lemma addref_live:
  "items st a = Some it \<Longrightarrow>
   obs_sceneitem_addref (Some a) st = Inr (st\<lparr>items := (items st)(a \<mapsto> it\<lparr>ref := ref it + 1\<rparr>)\<rparr>)"
  by (simp add: obs_sceneitem_addref_def upd_item_def)

lemma release_live:
  "items st a = Some it \<Longrightarrow> ref it \<noteq> 1 \<Longrightarrow>
   obs_sceneitem_release (Some a) st = Inr (st\<lparr>items := (items st)(a \<mapsto> it\<lparr>ref := ref it - 1\<rparr>)\<rparr>)"
  by (simp add: obs_sceneitem_release_def upd_item_def get_item_def)

lemma release_last:
  "items st a = Some it \<Longrightarrow> ref it = 1 \<Longrightarrow>
   obs_sceneitem_release (Some a) st =
     Inr (emit (Bfree a)
       ((case source it of Some src \<Rightarrow> emit (SourceRelease (Some src)) | None \<Rightarrow> id)
          (st\<lparr>items := (items st)(a := None)\<rparr>)))"
  by (simp add: obs_sceneitem_release_def upd_item_def get_item_def obs_sceneitem_destroy_def
      emit_def split: option.splits)

lemma ref_calls_alive:
  "items st a = Some it \<Longrightarrow> ref it = word_of_int c \<Longrightarrow>
   (\<forall>n. n < length cs \<and> cs ! n = Release \<longrightarrow>
      (word_of_int (c + balance (take (Suc n) cs)) :: long) \<noteq> 0) \<Longrightarrow>
   ref_calls cs a st =
     Inr (st\<lparr>items := (items st)(a \<mapsto> it\<lparr>ref := word_of_int (c + balance cs)\<rparr>)\<rparr>)"
proof (induction cs arbitrary: st it c)
  case Nil
  have "it\<lparr>ref := word_of_int c\<rparr> = it" using Nil(2)[symmetric] by simp
  then show ?case using Nil(1) by (simp add: map_upd_triv)
next
  case (Cons d cs)
  have rest: "\<forall>n. n < length cs \<and> cs ! n = Release \<longrightarrow>
      (word_of_int (c + balance [d] + balance (take (Suc n) cs)) :: long) \<noteq> 0"
  proof (intro allI impI)
    fix n assume n: "n < length cs \<and> cs ! n = Release"
    then have "Suc n < length (d # cs) \<and> (d # cs) ! Suc n = Release" by simp
    then have nz: "(word_of_int (c + balance (take (Suc (Suc n)) (d # cs))) :: long) \<noteq> 0"
      by (rule Cons.prems(3)[rule_format])
    have eq: "c + balance (take (Suc (Suc n)) (d # cs)) =
        c + balance [d] + balance (take (Suc n) cs)"
      by (cases d) simp_all
    show "(word_of_int (c + balance [d] + balance (take (Suc n) cs)) :: long) \<noteq> 0"
      using nz unfolding eq .
  qed
  show ?case
  proof (cases d)
    case Addref
    let ?it = "it\<lparr>ref := ref it + 1\<rparr>"
    let ?st = "st\<lparr>items := (items st)(a \<mapsto> ?it)\<rparr>"
    have r: "ref ?it = word_of_int (c + balance [d])" using Cons.prems(2) Addref by simp
    have "ref_calls (d # cs) a st = ref_calls cs a ?st"
      using Addref by (simp add: addref_live[OF Cons.prems(1)])
    also have "\<dots> = Inr (?st\<lparr>items := (items ?st)(a \<mapsto>
        ?it\<lparr>ref := word_of_int (c + balance [d] + balance cs)\<rparr>)\<rparr>)"
      using rest r by (intro Cons.IH) simp_all
    also have "\<dots> = Inr (st\<lparr>items := (items st)(a \<mapsto>
        it\<lparr>ref := word_of_int (c + balance (d # cs))\<rparr>)\<rparr>)"
      using Addref by (simp add: algebra_simps)
    finally show ?thesis .
  next
    case Release
    let ?it = "it\<lparr>ref := ref it - 1\<rparr>"
    let ?st = "st\<lparr>items := (items st)(a \<mapsto> ?it)\<rparr>"
    have r: "ref ?it = word_of_int (c + balance [d])" using Cons.prems(2) Release by simp
    have "(word_of_int (c + balance (take (Suc 0) (d # cs))) :: long) \<noteq> 0"
      using Cons.prems(3)[rule_format, of 0] Release by simp
    then have "ref ?it \<noteq> 0" unfolding r by simp
    then have ne: "ref it \<noteq> 1" by auto
    have "ref_calls (d # cs) a st = ref_calls cs a ?st"
      using Release by (simp add: release_live[OF Cons.prems(1) ne])
    also have "\<dots> = Inr (?st\<lparr>items := (items ?st)(a \<mapsto>
        ?it\<lparr>ref := word_of_int (c + balance [d] + balance cs)\<rparr>)\<rparr>)"
      using rest r by (intro Cons.IH) simp_all
    also have "\<dots> = Inr (st\<lparr>items := (items st)(a \<mapsto>
        it\<lparr>ref := word_of_int (c + balance (d # cs))\<rparr>)\<rparr>)"
      using Release by (simp add: algebra_simps)
    finally show ?thesis .
  qed
qed

lemma count_list_take_le: "count_list (take n cs) x \<le> count_list cs x"
proof -
  have "count_list cs x = count_list (take n cs @ drop n cs) x" by simp
  also have "\<dots> = count_list (take n cs) x + count_list (drop n cs) x"
    by (simp only: count_list_append)
  finally show ?thesis by simp
qed

lemma addrefs_wrap:
  "items st a = Some it \<Longrightarrow>
   ref_calls (replicate n Addref) a st =
     Inr (st\<lparr>items := (items st)(a \<mapsto> it\<lparr>ref := ref it + of_nat n\<rparr>)\<rparr>)"
proof (induction n arbitrary: st it)
  case 0
  then show ?case by (simp add: map_upd_triv)
next
  case (Suc n)
  let ?it = "it\<lparr>ref := ref it + 1\<rparr>"
  let ?st = "st\<lparr>items := (items st)(a \<mapsto> ?it)\<rparr>"
  have "ref_calls (replicate (Suc n) Addref) a st = ref_calls (replicate n Addref) a ?st"
    by (simp add: addref_live[OF Suc.prems])
  also have "\<dots> = Inr (?st\<lparr>items := (items ?st)(a \<mapsto> ?it\<lparr>ref := ref ?it + of_nat n\<rparr>)\<rparr>)"
    by (intro Suc.IH) simp
  also have "\<dots> = Inr (st\<lparr>items := (items st)(a \<mapsto> it\<lparr>ref := ref it + of_nat (Suc n)\<rparr>)\<rparr>)"
    by (simp add: algebra_simps)
  finally show ?case .
qed

text \<open>
  C9 (amended). An item with reference count 1 (as \<open>obs_scene_add\<close> creates it) receives
  \<open>M\<close> addref and \<open>M + 1\<close> release calls, where \<open>M\<close> is below \<open>2^64\<close> so that no release
  can find the 64-bit counter wrapped round to zero, in an order that keeps the count at
  least 1 until the last call. Then all calls succeed, the last call destroys the item (its source
  reference is released and the node freed, once), and after every shorter prefix of the
  calls the item is still allocated and nothing has been released or freed.
\<close>

theorem ref_calls_destroy_once:
  fixes st :: "'f state"
  assumes live: "items st a = Some it" and one: "ref it = 1" and src: "source it = Some src"
    and m: "count_list cs Addref = M" and m1: "count_list cs Release = Suc M"
    and bound: "M < 2 ^ 64"
    and pos: "\<forall>n<length cs. 0 < 1 + balance (take n cs)"
  shows "\<exists>st'. ref_calls cs a st = Inr st' \<and> items st' a = None \<and>
           trace st' = trace st @ [SourceRelease (Some src), Bfree a] \<and>
           (\<forall>n<length cs. \<exists>stn. ref_calls (take n cs) a st = Inr stn \<and>
              items stn a \<noteq> None \<and> trace stn = trace st)"
proof -
  have ne: "cs \<noteq> []" using m1 by auto
  then obtain ds c where cs: "cs = ds @ [c]" by (metis rev_exhaust)
  have bal: "balance cs = -1" using m m1 by (simp add: balance_def)
  have balds: "0 < 1 + balance ds" using pos[rule_format, of "length ds"] cs by simp
  have c: "c = Release"
  proof (cases c)
    case Addref
    then have "balance cs = balance ds + 1" using cs by (simp add: balance_def)
    then show ?thesis using bal balds by simp
  qed simp
  have balds0: "balance ds = 0" using bal cs c by (simp add: balance_def)
  have one': "ref it = word_of_int 1" using one by simp
  have nz: "(word_of_int (1 + balance (take (Suc k) cs)) :: long) \<noteq> 0"
    if k: "Suc k < length cs" and rel: "cs ! k = Release" for k
  proof -
    have tk: "take (Suc k) cs = take k cs @ [Release]"
      using k rel by (simp add: take_Suc_conv_app_nth)
    have "count_list (take (Suc k) cs) Addref \<le> M"
      using count_list_take_le[of "Suc k" cs Addref] m by simp
    moreover have "1 \<le> count_list (take (Suc k) cs) Release" by (simp add: tk)
    ultimately have "1 + balance (take (Suc k) cs) \<le> int M" by (simp add: balance_def)
    also have "\<dots> < 2 ^ 64" using bound by (simp only: of_nat_less_numeral_power_cancel_iff)
    finally have up: "1 + balance (take (Suc k) cs) < 2 ^ 64" .
    show ?thesis by (rule long_of_int_nonzero[OF pos[rule_format, OF k] up])
  qed
  have alive: "ref_calls (take n cs) a st =
      Inr (st\<lparr>items := (items st)(a \<mapsto> it\<lparr>ref := word_of_int (1 + balance (take n cs))\<rparr>)\<rparr>)"
    if n: "n < length cs" for n
  proof (rule ref_calls_alive[OF live one'], intro allI impI)
    fix k assume k: "k < length (take n cs) \<and> take n cs ! k = Release"
    then have kn: "k < n" by simp
    then have tk: "take (Suc k) (take n cs) = take (Suc k) cs" and kl: "Suc k < length cs"
      and rel: "cs ! k = Release"
      using n k by (simp_all add: min_def)
    show "(word_of_int (1 + balance (take (Suc k) (take n cs))) :: long) \<noteq> 0"
      unfolding tk by (rule nz[OF kl rel])
  qed
  have "ref_calls ds a st =
      Inr (st\<lparr>items := (items st)(a \<mapsto> it\<lparr>ref := word_of_int (1 + balance ds)\<rparr>)\<rparr>)"
    using alive[of "length ds"] cs by simp
  then have "ref_calls cs a st =
      obs_sceneitem_release (Some a) (st\<lparr>items := (items st)(a \<mapsto> it\<lparr>ref := 1\<rparr>)\<rparr>)"
    using cs c balds0 by (simp add: ref_calls_append)
  also have "\<dots> = Inr (emit (Bfree a)
             ((case source it of Some src \<Rightarrow> emit (SourceRelease (Some src)) | None \<Rightarrow> id)
                (st\<lparr>items := (items st)(a := None)\<rparr>)))"
    by (subst release_last[where it = "it\<lparr>ref := 1\<rparr>"]) simp_all
  finally have final: "ref_calls cs a st = Inr (emit (Bfree a)
             (emit (SourceRelease (Some src)) (st\<lparr>items := (items st)(a := None)\<rparr>)))"
    using src by simp
  show ?thesis using final alive by (simp add: emit_def)
qed

theorem ref_calls_destroy_once_witness:
  "ref_calls [Addref, Release, Addref, Release, Release] 0 ex_one =
     Inr (ex_one\<lparr>items := Map.empty, trace := [SourceRelease (Some 200), Bfree 0]\<rparr>) \<and>
   (\<exists>st'. ref_calls [Addref, Release, Addref, Release, Release] 0 ex_one = Inr st' \<and>
      items st' 0 = None \<and>
      trace st' = trace ex_one @ [SourceRelease (Some 200), Bfree 0] \<and>
      (\<forall>n<length [Addref, Release, Addref, Release, Release].
         \<exists>stn. ref_calls (take n [Addref, Release, Addref, Release, Release]) 0 ex_one = Inr stn \<and>
           items stn 0 \<noteq> None \<and> trace stn = trace ex_one))"
proof -
  let ?cs = "[Addref, Release, Addref, Release, Release]"
  have pos: "\<forall>n<length ?cs. 0 < 1 + balance (take n ?cs)"
  proof (intro allI impI)
    fix n assume "n < length ?cs"
    then have "n \<in> {0, 1, 2, 3, 4}" by auto
    then show "0 < 1 + balance (take n ?cs)" by (auto simp: balance_def)
  qed
  have ev: "ref_calls ?cs 0 ex_one =
     Inr (ex_one\<lparr>items := Map.empty, trace := [SourceRelease (Some 200), Bfree 0]\<rparr>)"
    by (simp add: model_defs ex_one_def)
  have bound: "(2::nat) < 2 ^ 64" by simp
  show ?thesis
    using ev ref_calls_destroy_once[where st = ex_one and a = 0 and it = "new_item 10 200"
        and src = 200 and cs = ?cs and M = 2, OF _ _ _ _ _ bound pos]
    by (simp add: ex_one_def new_item_def)
qed

text \<open>
  C9 as stated asks only that the count never drops below zero, for every \<open>M\<close>. The calls
  release, addref, release (\<open>M = 1\<close>) keep the count at 0 or above, yet the first release
  already brings it to 0 and destroys the item, and the following addref touches the
  freed node. And with \<open>M = 2^64\<close> the addrefs wrap the 64-bit counter back to 1, so that
  again the first of the releases destroys the item.
\<close>

theorem ref_calls_early_destroy:
  "count_list [Release, Addref, Release] Addref = 1 \<and>
   count_list [Release, Addref, Release] Release = Suc 1 \<and>
   0 \<le> 1 + balance [] \<and> 0 \<le> 1 + balance [Release] \<and> 0 \<le> 1 + balance [Release, Addref] \<and>
   0 \<le> 1 + balance [Release, Addref, Release] \<and>
   map_option ref (items ex_one 0) = Some 1 \<and>
   ref_calls [Release] 0 ex_one =
     Inr (ex_one\<lparr>items := Map.empty, trace := [SourceRelease (Some 200), Bfree 0]\<rparr>) \<and>
   ref_calls [Release, Addref, Release] 0 ex_one = Inl UseAfterFree \<and>
   ref_calls (replicate (2 ^ 64) Addref @ [Release]) 0 ex_one =
     Inr (ex_one\<lparr>items := Map.empty, trace := [SourceRelease (Some 200), Bfree 0]\<rparr>) \<and>
   ref_calls (replicate (2 ^ 64) Addref @ replicate (2 ^ 64 + 1) Release) 0 ex_one =
     Inl UseAfterFree"
proof -
  have small: "count_list [Release, Addref, Release] Addref = 1 \<and>
   count_list [Release, Addref, Release] Release = Suc 1 \<and>
   0 \<le> 1 + balance [] \<and> 0 \<le> 1 + balance [Release] \<and> 0 \<le> 1 + balance [Release, Addref] \<and>
   0 \<le> 1 + balance [Release, Addref, Release] \<and>
   map_option ref (items ex_one 0) = Some 1 \<and>
   ref_calls [Release] 0 ex_one =
     Inr (ex_one\<lparr>items := Map.empty, trace := [SourceRelease (Some 200), Bfree 0]\<rparr>) \<and>
   ref_calls [Release, Addref, Release] 0 ex_one = Inl UseAfterFree"
    by (simp add: model_defs ex_one_def balance_def)
  have it: "items ex_one 0 = Some (new_item 10 200)" by (simp add: ex_one_def)
  have z: "(of_nat (2 ^ 64) :: long) = 0" by simp
  have wrapped: "ref_calls (replicate (2 ^ 64) Addref) 0 ex_one = Inr ex_one"
    using addrefs_wrap[OF it, of "2 ^ 64"] z it
    by (simp add: map_upd_triv del: of_nat_power of_nat_numeral)
  have first: "ref_calls (replicate (2 ^ 64) Addref @ [Release]) 0 ex_one =
     Inr (ex_one\<lparr>items := Map.empty, trace := [SourceRelease (Some 200), Bfree 0]\<rparr>)"
    using small by (simp only: ref_calls_append wrapped bindE.simps)
  have more: "replicate (2 ^ 64 + 1) Release = Release # Release # replicate (2 ^ 64 - 1) Release"
    by (simp add: replicate_Suc[symmetric] del: replicate_Suc replicate.simps)
  have second: "ref_calls (Release # Release # cs) 0 ex_one = Inl UseAfterFree" for cs
    by (simp add: model_defs ex_one_def)
  have all: "ref_calls (replicate (2 ^ 64) Addref @ replicate (2 ^ 64 + 1) Release) 0 ex_one =
     Inl UseAfterFree"
    by (simp only: ref_calls_append wrapped bindE.simps more second)
  show ?thesis by (insert small first all, elim conjE, intro conjI, assumption+)
qed

section \<open>Doubly-linked chains in the store\<close>

lemma last_ptr_simps [simp]:
  "last_ptr p [] = p" "last_ptr p (xs @ [a]) = Some a" "last_ptr p (a # xs) = last_ptr (Some a) xs"
  by (simp_all add: last_ptr_def)

lemma head_ptr_simps [simp]: "head_ptr [] q = q" "head_ptr (a # as) q = Some a"
  by (simp_all add: head_ptr_def)

lemma chain_head: "item_chain h p c xs q \<Longrightarrow> c = head_ptr xs q"
  by (cases xs) simp_all

lemma chain_append:
  "item_chain h p c (xs @ ys) q \<longleftrightarrow>
     item_chain h p c xs (head_ptr ys q) \<and> item_chain h (last_ptr p xs) (head_ptr ys q) ys q"
proof (induction xs arbitrary: p c)
  case Nil
  show ?case using chain_head[of h p c ys q] by auto
next
  case (Cons a xs)
  show ?case by (auto simp: Cons.IH split: option.splits)
qed

lemma chain_live: "item_chain h p c xs q \<Longrightarrow> a \<in> set xs \<Longrightarrow> \<exists>it. h a = Some it"
  by (induction xs arbitrary: p c) (auto split: option.splits)

lemma chain_frame:
  "(\<And>a. a \<in> set xs \<Longrightarrow> map_option (\<lambda>i. (prev i, next i)) (h' a) = map_option (\<lambda>i. (prev i, next i)) (h a)) \<Longrightarrow>
   item_chain h' p c xs q = item_chain h p c xs q"
proof (induction xs arbitrary: p c)
  case Nil
  show ?case by simp
next
  case (Cons a xs)
  have "map_option (\<lambda>i. (prev i, next i)) (h' a) = map_option (\<lambda>i. (prev i, next i)) (h a)"
    using Cons.prems by simp
  moreover have "\<And>p c. item_chain h' p c xs q = item_chain h p c xs q"
    using Cons.prems by (intro Cons.IH) simp
  ultimately show ?case by (auto split: option.splits)
qed

lemma payload_links [simp]:
  "prev (payload i) = None" "next (payload i) = None"
  "ref (payload i) = ref i" "removed (payload i) = removed i" "parent (payload i) = parent i"
  "source (payload i) = source i" "visible (payload i) = visible i" "origin (payload i) = origin i"
  "pos (payload i) = pos i" "scale (payload i) = scale i" "rot (payload i) = rot i"
  "payload (i\<lparr>prev := p\<rparr>) = payload i" "payload (i\<lparr>next := n\<rparr>) = payload i"
  by (simp_all add: payload_def)

lemma set_next_apply:
  "set_next p n h b = (if p = Some b then map_option (\<lambda>i. i\<lparr>next := n\<rparr>) (h b) else h b)"
  by (auto simp: set_next_def split: option.splits)

lemma set_prev_apply:
  "set_prev n p h b = (if n = Some b then map_option (\<lambda>i. i\<lparr>prev := p\<rparr>) (h b) else h b)"
  by (auto simp: set_prev_def split: option.splits)

lemma chain_set_next:
  "item_chain h p c ks m \<Longrightarrow> distinct ks \<Longrightarrow>
   item_chain (set_next (last_ptr None ks) q h) p (if ks = [] then q else c) ks q"
proof (induction ks arbitrary: p c)
  case Nil
  show ?case by simp
next
  case (Cons a ks)
  from Cons.prems obtain it where it: "c = Some a" "h a = Some it" "prev it = p"
    and rest: "item_chain h (Some a) (next it) ks m"
    by (auto split: option.splits)
  show ?case
  proof (cases "ks = []")
    case True
    then show ?thesis using it by (simp add: set_next_apply)
  next
    case False
    then have lp: "last_ptr None (a # ks) = last_ptr None ks" by (simp add: last_ptr_def)
    have "a \<noteq> last ks" using Cons.prems(2) False by auto
    then have ha: "set_next (last_ptr None ks) q h a = Some it"
      using it False by (simp add: set_next_apply last_ptr_def)
    have "item_chain (set_next (last_ptr None ks) q h) (Some a) (next it) ks q"
      using Cons.IH[OF rest] Cons.prems(2) False by simp
    then show ?thesis using it False lp ha by simp
  qed
qed

lemma chain_set_prev:
  "item_chain h p c ys None \<Longrightarrow> distinct ys \<Longrightarrow> item_chain (set_prev c p' h) p' c ys None"
proof (cases ys)
  case Nil
  assume "item_chain h p c ys None"
  then show ?thesis using Nil by (simp add: set_prev_def)
next
  case (Cons a as)
  assume ch: "item_chain h p c ys None" and d: "distinct ys"
  from ch Cons obtain it where it: "c = Some a" "h a = Some it" "prev it = p"
    and rest: "item_chain h (Some a) (next it) as None"
    by (auto split: option.splits)
  have "item_chain (set_prev c p' h) (Some a) (next it) as None = item_chain h (Some a) (next it) as None"
    by (rule chain_frame) (use d Cons it in \<open>auto simp: set_prev_apply\<close>)
  then show ?thesis using Cons it rest by (simp add: set_prev_apply)
qed

lemma chain_unlink:
  assumes ch: "item_chain h None c (ks @ a # ys) None" and d: "distinct (ks @ a # ys)"
    and it: "h a = Some it" and p: "p = prev it" and n: "n = next it"
  shows "item_chain ((set_prev n p (set_next p n h))(a := v))
           None (if ks = [] then n else c) (ks @ ys) None"
proof -
  let ?h1 = "set_next p n h"
  let ?h2 = "set_prev n p ?h1"
  let ?h3 = "?h2(a := v)"
  from ch have front: "item_chain h None c ks (Some a)"
    and pv: "p = last_ptr None ks"
    and tl: "item_chain h (Some a) n ys None"
    using it p n by (auto simp: chain_append split: option.splits)
  have nx: "n = head_ptr ys None" using chain_head[OF tl] .
  have f1: "item_chain ?h1 None (if ks = [] then n else c) ks n"
    using chain_set_next[OF front, of n] d pv by simp
  have f2: "item_chain ?h3 None (if ks = [] then n else c) ks n
      = item_chain ?h1 None (if ks = [] then n else c) ks n"
    by (rule chain_frame) (use d nx in \<open>auto simp: set_prev_apply head_ptr_def split: list.splits\<close>)
  have disj: "p \<noteq> Some b" if "b \<in> set ys" for b
  proof (cases "ks = []")
    case False
    then have "last ks \<in> set ks" by simp
    moreover have "set ks \<inter> set ys = {}" using d by auto
    ultimately have "last ks \<notin> set ys" by blast
    then show ?thesis using pv that False by (auto simp: last_ptr_def)
  qed (use pv in simp)
  have b0: "item_chain ?h1 (Some a) n ys None = item_chain h (Some a) n ys None"
    by (rule chain_frame) (use disj in \<open>auto simp: set_next_apply\<close>)
  have b1: "item_chain ?h2 p n ys None"
    using chain_set_prev[of ?h1 "Some a" n ys p] b0 tl d by simp
  have b2: "item_chain ?h3 p n ys None = item_chain ?h2 p n ys None"
    by (rule chain_frame) (use d in auto)
  show ?thesis
    using f1 f2 b1 b2 pv nx by (simp add: chain_append)
qed

lemma walk_to_last_chain:
  "item_chain (items st) p (Some l) xs None \<Longrightarrow> walk_to_last st l = Some (Inr (last xs))"
proof (induction xs arbitrary: p l)
  case Nil
  then show ?case by simp
next
  case (Cons a xs)
  from Cons.prems obtain it where it: "l = a" "items st a = Some it"
    and rest: "item_chain (items st) (Some a) (next it) xs None"
    by (auto split: option.splits)
  show ?case
  proof (cases xs)
    case Nil
    then show ?thesis using it rest by (subst walk_to_last.simps) simp
  next
    case (Cons b bs)
    then have nb: "next it = Some b" using rest by simp
    have "walk_to_last st b = Some (Inr (last xs))"
      using Cons.IH[of "Some a" b] rest nb by simp
    then show ?thesis using it nb Cons by (subst walk_to_last.simps) simp
  qed
qed


lemma detach_exact:
  assumes it: "items st a = Some it"
    and hd: "prev it = None \<Longrightarrow> parent it = Some sc \<and> scenes st sc = Some s"
    and pa: "prev it \<noteq> Some a" and na: "next it \<noteq> Some a"
    and pl: "\<And>p. prev it = Some p \<Longrightarrow> items st p \<noteq> None"
    and nl: "\<And>n. next it = Some n \<Longrightarrow> items st n \<noteq> None"
  shows "detach_sceneitem a st =
     Inr (st\<lparr>items := (set_prev (next it) (prev it) (set_next (prev it) (next it) (items st)))
                  (a \<mapsto> it\<lparr>parent := None\<rparr>),
             scenes := (if prev it = None then (scenes st)(sc \<mapsto> s\<lparr>first_item := next it\<rparr>)
                        else scenes st)\<rparr>)"
proof (cases "prev it")
  case None
  note pn = None
  show ?thesis
  proof (cases "next it")
    case None
    then show ?thesis using pn it hd
      by (simp add: detach_sceneitem_def get_item_def upd_item_def upd_scene_def set_next_def set_prev_def)
  next
    case (Some n)
    then obtain nit where "items st n = Some nit" using nl by auto
    then show ?thesis using pn Some it hd na
      by (simp add: detach_sceneitem_def get_item_def upd_item_def upd_scene_def set_next_def set_prev_def)
  qed
next
  case (Some p)
  note pp = Some
  then obtain pit where pit: "items st p = Some pit" using pl by auto
  have pa': "p \<noteq> a" using pa pp by simp
  show ?thesis
  proof (cases "next it")
    case None
    then show ?thesis using pp it pit pa'
      by (simp add: detach_sceneitem_def get_item_def upd_item_def upd_scene_def set_next_def set_prev_def)
  next
    case (Some n)
    then obtain nit where nit: "items st n = Some nit" using nl by auto
    have na': "n \<noteq> a" using na Some by simp
    show ?thesis
    proof (cases "n = p")
      case True
      then show ?thesis using pp Some it pit pa'
        by (simp add: detach_sceneitem_def get_item_def upd_item_def upd_scene_def set_next_def set_prev_def)
    next
      case False
      then show ?thesis using pp Some it pit nit pa' na'
        by (simp add: detach_sceneitem_def get_item_def upd_item_def upd_scene_def set_next_def set_prev_def)
    qed
  qed
qed

lemma remove_exact:
  assumes it: "items st a = Some it" and nr: "\<not> removed it" and par: "parent it = Some sc"
    and sc: "scenes st sc = Some s" and src: "obs_scene.source s = Some ssrc"
    and pa: "prev it \<noteq> Some a" and na: "next it \<noteq> Some a"
    and pl: "\<And>p. prev it = Some p \<Longrightarrow> items st p \<noteq> None"
    and nl: "\<And>n. next it = Some n \<Longrightarrow> items st n \<noteq> None"
  shows "obs_sceneitem_remove (Some a) st =
     Inr (st\<lparr>items := (set_prev (next it) (prev it) (set_next (prev it) (next it)
                    ((items st)(a \<mapsto> it\<lparr>removed := True\<rparr>))))
                  (a := (if ref it = 1 then None
                         else Some (it\<lparr>removed := True, parent := None, ref := ref it - 1\<rparr>))),
             scenes := (if prev it = None then (scenes st)(sc \<mapsto> s\<lparr>first_item := next it\<rparr>)
                        else scenes st),
             trace := trace st @ remove_calls sc ssrc a it\<rparr>)"
proof -
  let ?itr = "it\<lparr>removed := True\<rparr>"
  let ?st3 = "st\<lparr>items := (items st)(a \<mapsto> ?itr),
                 trace := trace st @ [MutexLock sc, SourceRemoveChild (Some ssrc) (source it),
                   SignalHandlerSignal ssrc ''item_remove'' (Some sc) a]\<rparr>"
  have d: "detach_sceneitem a ?st3 =
     Inr (?st3\<lparr>items := (set_prev (next ?itr) (prev ?itr) (set_next (prev ?itr) (next ?itr) (items ?st3)))
                  (a \<mapsto> ?itr\<lparr>parent := None\<rparr>),
             scenes := (if prev ?itr = None then (scenes ?st3)(sc \<mapsto> s\<lparr>first_item := next ?itr\<rparr>)
                        else scenes ?st3)\<rparr>)"
    by (rule detach_exact) (use assms in auto)
  show ?thesis
    using it nr par sc src d
    by (simp add: obs_sceneitem_remove_def get_item_def get_scene_def upd_item_def mutex_lock_def
        mutex_unlock_def signal_item_remove_def emit_def Let_def obs_sceneitem_release_def
        obs_sceneitem_destroy_def remove_calls_def split: option.splits)
qed


lemma payload_eqD:
  assumes "payload i = payload j"
  shows "ref i = ref j" "removed i = removed j" "parent i = parent j" "source i = source j"
    "visible i = visible j" "origin i = origin j" "pos i = pos j" "scale i = scale j" "rot i = rot j"
  using arg_cong[OF assms, of ref] arg_cong[OF assms, of removed] arg_cong[OF assms, of parent]
    arg_cong[OF assms, of source] arg_cong[OF assms, of visible] arg_cong[OF assms, of origin]
    arg_cong[OF assms, of pos] arg_cong[OF assms, of scale] arg_cong[OF assms, of rot]
  by simp_all

lemma payload_set_next [simp]: "map_option payload (set_next p n h b) = map_option payload (h b)"
  by (cases "h b") (auto simp: set_next_apply)

lemma payload_set_prev [simp]: "map_option payload (set_prev n p h b) = map_option payload (h b)"
  by (cases "h b") (auto simp: set_prev_apply)

lemma owned_payload:
  assumes "map_option payload x = map_option payload y"
  shows "(case x of None \<Rightarrow> False | Some it \<Rightarrow> parent it = Some sc \<and> \<not> removed it) =
         (case y of None \<Rightarrow> False | Some it \<Rightarrow> parent it = Some sc \<and> \<not> removed it)"
  using assms by (cases x; cases y) (auto dest: payload_eqD)

lemma scene_okD:
  assumes "scene_ok st sc xs" and "a \<in> set xs"
  shows "\<exists>it. items st a = Some it \<and> parent it = Some sc \<and> \<not> removed it"
  using assms by (auto simp: scene_ok_def split: option.splits)

lemma remove_item_spec:
  assumes its: "scene_items st sc (ks @ a # ys)" and sc: "scenes st sc = Some s"
    and src: "obs_scene.source s = Some ssrc" and it: "items st a = Some it"
    and par: "parent it = Some sc" and nr: "\<not> removed it"
  shows "\<exists>st'. obs_sceneitem_remove (Some a) st = Inr st' \<and>
           scene_items st' sc (ks @ ys) \<and>
           (\<exists>s'. scenes st' sc = Some s' \<and> obs_scene.source s' = Some ssrc) \<and>
           (\<forall>sc'. sc' \<noteq> sc \<longrightarrow> scenes st' sc' = scenes st sc') \<and>
           items st' a = (if ref it = 1 then None
                          else Some (it\<lparr>removed := True, parent := None, ref := ref it - 1\<rparr>)) \<and>
           (\<forall>b. b \<noteq> a \<longrightarrow> map_option payload (items st' b) = map_option payload (items st b)) \<and>
           brk st' = brk st \<and>
           trace st' = trace st @ remove_calls sc ssrc a it"
proof -
  let ?xs = "ks @ a # ys"
  let ?h3 = "(items st)(a \<mapsto> it\<lparr>removed := True\<rparr>)"
  define v where "v = (if ref it = 1 then None
                     else Some (it\<lparr>removed := True, parent := None, ref := ref it - 1\<rparr>))"
  define H where "H = (set_prev (next it) (prev it) (set_next (prev it) (next it) ?h3))(a := v)"
  define S where "S = (if prev it = None then (scenes st)(sc \<mapsto> s\<lparr>first_item := next it\<rparr>)
                       else scenes st)"
  define st' where "st' = st\<lparr>items := H, scenes := S, trace := trace st @ remove_calls sc ssrc a it\<rparr>"
  from its sc have ch: "item_chain (items st) None (first_item s) ?xs None" and d: "distinct ?xs"
    by (auto simp: scene_items_def)
  from ch it have pv: "prev it = last_ptr None ks"
    and tl: "item_chain (items st) (Some a) (next it) ys None"
    by (auto simp: chain_append split: option.splits)
  have nx: "next it = head_ptr ys None" using chain_head[OF tl] .
  have pa: "prev it \<noteq> Some a"
  proof (cases "ks = []")
    case False
    then have "last ks \<in> set ks" by simp
    moreover have "a \<notin> set ks" using d by auto
    ultimately have "last ks \<noteq> a" by blast
    then show ?thesis using pv False by (simp add: last_ptr_def)
  qed (use pv in simp)
  have na: "next it \<noteq> Some a" using nx d by (cases ys) auto
  have pl: "items st p \<noteq> None" if "prev it = Some p" for p
  proof -
    have "ks \<noteq> []" "p = last ks" using that pv by (auto simp: last_ptr_def split: if_splits)
    then have "p \<in> set ?xs" by simp
    then show ?thesis using chain_live[OF ch] by blast
  qed
  have nl: "items st n \<noteq> None" if "next it = Some n" for n
  proof -
    have "n \<in> set ?xs" using that nx by (cases ys) auto
    then show ?thesis using chain_live[OF ch] by blast
  qed
  have ex: "obs_sceneitem_remove (Some a) st = Inr st'"
    unfolding st'_def H_def S_def v_def
    by (rule remove_exact[OF it nr par sc src pa na pl nl])
  have ch3: "item_chain ?h3 None (first_item s) ?xs None"
    using ch by (subst chain_frame[where h = "items st"]) (use it in auto)
  have it3: "?h3 a = Some (it\<lparr>removed := True\<rparr>)" by simp
  have chH: "item_chain H None (if ks = [] then next it else first_item s) (ks @ ys) None"
    unfolding H_def by (rule chain_unlink[OF ch3 d it3]) simp_all
  have ks: "prev it = None \<longleftrightarrow> ks = []" using pv by (simp add: last_ptr_def)
  have Ssc: "\<exists>s'. S sc = Some s' \<and> obs_scene.source s' = Some ssrc \<and>
                first_item s' = (if ks = [] then next it else first_item s)"
    using sc src ks by (simp add: S_def)
  have Sother: "S sc' = scenes st sc'" if "sc' \<noteq> sc" for sc'
    using that by (simp add: S_def)
  have Ha: "H a = v" by (simp add: H_def)
  have pay: "map_option payload (H b) = map_option payload (items st b)" if "b \<noteq> a" for b
    using that by (simp add: H_def)
  have items': "scene_items st' sc (ks @ ys)"
    using chH d Ssc by (auto simp: scene_items_def st'_def)
  show ?thesis
  proof (intro exI[of _ st'] conjI allI impI)
    show "obs_sceneitem_remove (Some a) st = Inr st'" by (rule ex)
    show "scene_items st' sc (ks @ ys)" by (rule items')
    show "\<exists>s'. scenes st' sc = Some s' \<and> obs_scene.source s' = Some ssrc"
      using Ssc by (auto simp: st'_def)
    show "scenes st' sc' = scenes st sc'" if "sc' \<noteq> sc" for sc'
      using Sother[OF that] by (simp add: st'_def)
    show "items st' a = (if ref it = 1 then None
                          else Some (it\<lparr>removed := True, parent := None, ref := ref it - 1\<rparr>))"
      using Ha by (simp add: st'_def v_def)
    show "map_option payload (items st' b) = map_option payload (items st b)" if "b \<noteq> a" for b
      using pay[OF that] by (simp add: st'_def)
    show "brk st' = brk st" by (simp add: st'_def)
    show "trace st' = trace st @ remove_calls sc ssrc a it" by (simp add: st'_def)
  qed
qed

lemma remove_spec:
  assumes ok: "scene_ok st sc (ks @ a # ys)" and sc: "scenes st sc = Some s"
    and src: "obs_scene.source s = Some ssrc" and it: "items st a = Some it"
  shows "\<exists>st'. obs_sceneitem_remove (Some a) st = Inr st' \<and>
           scene_ok st' sc (ks @ ys) \<and>
           (\<exists>s'. scenes st' sc = Some s' \<and> obs_scene.source s' = Some ssrc) \<and>
           (\<forall>sc'. sc' \<noteq> sc \<longrightarrow> scenes st' sc' = scenes st sc') \<and>
           items st' a = (if ref it = 1 then None
                          else Some (it\<lparr>removed := True, parent := None, ref := ref it - 1\<rparr>)) \<and>
           (\<forall>b. b \<noteq> a \<longrightarrow> map_option payload (items st' b) = map_option payload (items st b)) \<and>
           brk st' = brk st \<and>
           trace st' = trace st @ remove_calls sc ssrc a it"
proof -
  have its: "scene_items st sc (ks @ a # ys)" using ok by (simp add: scene_ok_def)
  then have d: "distinct (ks @ a # ys)" by (auto simp: scene_items_def split: option.splits)
  from scene_okD[OF ok, of a] it have par: "parent it = Some sc" and nr: "\<not> removed it" by auto
  from remove_item_spec[OF its sc src it par nr]
  obtain st' where rm: "obs_sceneitem_remove (Some a) st = Inr st'"
    and items': "scene_items st' sc (ks @ ys)"
    and s': "\<exists>s'. scenes st' sc = Some s' \<and> obs_scene.source s' = Some ssrc"
    and oth: "\<forall>sc'. sc' \<noteq> sc \<longrightarrow> scenes st' sc' = scenes st sc'"
    and ia: "items st' a = (if ref it = 1 then None
                          else Some (it\<lparr>removed := True, parent := None, ref := ref it - 1\<rparr>))"
    and pay: "\<forall>b. b \<noteq> a \<longrightarrow> map_option payload (items st' b) = map_option payload (items st b)"
    and brk': "brk st' = brk st"
    and tr: "trace st' = trace st @ remove_calls sc ssrc a it"
    by blast
  have owned: "case items st' b of None \<Rightarrow> False | Some i \<Rightarrow> parent i = Some sc \<and> \<not> removed i"
    if "b \<in> set (ks @ ys)" for b
  proof -
    have ba: "b \<noteq> a" using that d by auto
    have "b \<in> set (ks @ a # ys)" using that by auto
    then have "case items st b of None \<Rightarrow> False | Some i \<Rightarrow> parent i = Some sc \<and> \<not> removed i"
      using ok unfolding scene_ok_def by blast
    then show ?thesis using owned_payload[OF pay[rule_format, OF ba], of sc] by simp
  qed
  have ok': "scene_ok st' sc (ks @ ys)"
    using items' owned by (simp add: scene_ok_def)
  show ?thesis using rm ok' s' oth ia pay brk' tr by blast
qed


lemma add_spec:
  fixes st :: "('f::{zero,one}) state"
  assumes its: "scene_items st sc xs" and sc: "scenes st sc = Some s"
    and ssrc: "obs_scene.source s = Some ssrc" and fresh: "items st (brk st) = None"
  shows "\<exists>st'. obs_scene_add (Some sc) (Some src) st = Some (Inr (Some (brk st), st')) \<and>
           scene_items st' sc (xs @ [brk st]) \<and>
           items st' (brk st) = Some ((new_item sc src)\<lparr>prev := last_ptr None xs\<rparr>) \<and>
           (\<forall>b. b \<noteq> brk st \<longrightarrow> map_option payload (items st' b) = map_option payload (items st b)) \<and>
           (\<exists>s'. scenes st' sc = Some s' \<and> obs_scene.source s' = Some ssrc) \<and>
           (\<forall>sc'. sc' \<noteq> sc \<longrightarrow> scenes st' sc' = scenes st sc') \<and>
           brk st' = Suc (brk st) \<and>
           trace st' = trace st @
             [SourceAddref (Some src), SourceAddChild (Some ssrc) (Some src), MutexLock sc,
              MutexUnlock sc, SignalHandlerSignal ssrc ''item_add'' (Some sc) (brk st)]"
proof -
  define a where "a = brk st"
  define new :: "'f obs_scene_item" where "new = new_item sc src"
  define h1 where "h1 = (items st)(a \<mapsto> new)"
  define H where "H = (set_next (last_ptr None xs) (Some a) h1)(a \<mapsto> new\<lparr>prev := last_ptr None xs\<rparr>)"
  define S where "S = (if xs = [] then (scenes st)(sc \<mapsto> s\<lparr>first_item := Some a\<rparr>) else scenes st)"
  define tr where "tr = trace st @
             [SourceAddref (Some src), SourceAddChild (Some ssrc) (Some src), MutexLock sc,
              MutexUnlock sc, SignalHandlerSignal ssrc ''item_add'' (Some sc) a]"
  define st' where "st' = st\<lparr>items := H, scenes := S, brk := Suc (brk st), trace := tr\<rparr>"
  from its sc have ch: "item_chain (items st) None (first_item s) xs None" and d: "distinct xs"
    by (auto simp: scene_items_def)
  have axs: "a \<notin> set xs" using chain_live[OF ch, of a] fresh by (auto simp: a_def)
  have ch1: "item_chain h1 None (first_item s) xs None"
    using ch by (subst chain_frame[where h = "items st"]) (use axs in \<open>auto simp: h1_def\<close>)
  have ex: "obs_scene_add (Some sc) (Some src) st = Some (Inr (Some a, st'))"
  proof (cases xs)
    case Nil
    then have "first_item s = None" using ch by simp
    moreover have "new\<lparr>prev := None\<rparr> = new" by (simp add: new_def new_item_def)
    ultimately show ?thesis using sc ssrc Nil
      by (simp add: obs_scene_add_def Let_def get_scene_def mutex_lock_def mutex_unlock_def
          upd_scene_def emit_def st'_def H_def S_def tr_def h1_def a_def new_def set_next_def)
  next
    case (Cons b bs)
    then have fi: "first_item s = Some b" using ch by simp
    have ne: "xs \<noteq> []" using Cons by simp
    let ?st3 = "st\<lparr>items := (items st)(brk st \<mapsto> new_item sc src), brk := Suc (brk st),
      trace := trace st @
             [SourceAddref (Some src), SourceAddChild (Some ssrc) (Some src), MutexLock sc]\<rparr>"
    have "item_chain (items ?st3) None (Some b) xs None"
      using ch1 fi by (simp add: h1_def a_def new_def)
    then have w: "walk_to_last ?st3 b = Some (Inr (last xs))" by (rule walk_to_last_chain)
    have lx: "last xs \<in> set xs" using ne by simp
    then obtain lit where lit: "items st (last xs) = Some lit" using chain_live[OF ch] by blast
    have la: "last xs \<noteq> brk st" using lx axs by (auto simp: a_def)
    have lp: "last_ptr None xs = Some (last xs)" using ne by (simp add: last_ptr_def)
    show ?thesis unfolding st'_def H_def S_def tr_def h1_def a_def new_def
      using sc ssrc fi w lit la lp ne
      by (simp add: obs_scene_add_def Let_def get_scene_def mutex_lock_def mutex_unlock_def
          upd_scene_def upd_item_def emit_def set_next_def)
  qed
  have c1: "item_chain (set_next (last_ptr None xs) (Some a) h1) None
              (if xs = [] then Some a else first_item s) xs (Some a)"
    by (rule chain_set_next[OF ch1 d])
  have c2: "item_chain H None (if xs = [] then Some a else first_item s) xs (Some a)"
    using c1 unfolding H_def by (subst chain_frame[where h = "set_next (last_ptr None xs) (Some a) h1"])
      (use axs in auto)
  have Ha: "H a = Some (new\<lparr>prev := last_ptr None xs\<rparr>)" by (simp add: H_def)
  have nn: "next new = None" by (simp add: new_def new_item_def)
  have chH: "item_chain H None (if xs = [] then Some a else first_item s) (xs @ [a]) None"
    using c2 Ha nn by (simp add: chain_append)
  have Ssc: "\<exists>s'. S sc = Some s' \<and> obs_scene.source s' = Some ssrc \<and>
                first_item s' = (if xs = [] then Some a else first_item s)"
    using sc ssrc by (simp add: S_def)
  have pay: "map_option payload (H b) = map_option payload (items st b)" if "b \<noteq> a" for b
    using that by (simp add: H_def h1_def)
  show ?thesis
  proof (intro exI[of _ st'] conjI allI impI)
    show "obs_scene_add (Some sc) (Some src) st = Some (Inr (Some (brk st), st'))"
      using ex by (simp add: a_def)
    show "scene_items st' sc (xs @ [brk st])"
      using chH d axs Ssc by (auto simp: scene_items_def st'_def a_def)
    show "items st' (brk st) = Some ((new_item sc src)\<lparr>prev := last_ptr None xs\<rparr>)"
      using Ha by (simp add: st'_def a_def new_def)
    show "map_option payload (items st' b) = map_option payload (items st b)" if "b \<noteq> brk st" for b
      using pay[of b] that by (simp add: st'_def a_def)
    show "\<exists>s'. scenes st' sc = Some s' \<and> obs_scene.source s' = Some ssrc"
      using Ssc by (auto simp: st'_def)
    show "scenes st' sc' = scenes st sc'" if "sc' \<noteq> sc" for sc'
      using that by (simp add: st'_def S_def)
    show "brk st' = Suc (brk st)" by (simp add: st'_def)
    show "trace st' = trace st @
             [SourceAddref (Some src), SourceAddChild (Some ssrc) (Some src), MutexLock sc,
              MutexUnlock sc, SignalHandlerSignal ssrc ''item_add'' (Some sc) (brk st)]"
      by (simp add: st'_def tr_def a_def)
  qed
qed


section \<open>Removing an item twice\<close>

lemma ex_held_reachable: "obs_sceneitem_addref (Some 1) ex_two = Inr ex_held"
  by (simp add: model_defs ex_two_def ex_held_def fun_eq_iff)

text \<open>
  C4 (amended). An item that is linked in the list of a scene, still names that scene as its
  parent and is not flagged removed (the state in which \<open>obs_scene_add\<close> leaves it), and on
  which somebody besides the list holds a reference (count at least 2), is removed twice.
  The first call locks, unregisters the child, emits one "item_remove" signal, unlinks the
  item (the list loses exactly this item, every other item keeps its payload), unlocks,
  and releases the one reference of the list; the second call finds the \<open>removed\<close> flag
  and returns the state exactly as it was, without even locking (the parent is already
  cleared). Removing the NULL item changes nothing. Nothing is said about an item whose
  parent \<open>obs_sceneitem_setorder\<close> has cleared.
\<close>

theorem remove_twice_once:
  assumes its: "scene_items st sc xs" and a: "a \<in> set xs" and sc: "scenes st sc = Some s"
    and src: "obs_scene.source s = Some ssrc" and it: "items st a = Some it"
    and par: "parent it = Some sc" and nr: "\<not> removed it"
    and held: "1 < sint (ref it)"
  shows "\<exists>st1. obs_sceneitem_remove (Some a) st = Inr st1 \<and>
           obs_sceneitem_remove (Some a) st1 = Inr st1 \<and>
           scene_items st1 sc (remove1 a xs) \<and>
           items st1 a = Some (it\<lparr>removed := True, parent := None, ref := ref it - 1\<rparr>) \<and>
           (\<forall>b. b \<noteq> a \<longrightarrow> map_option payload (items st1 b) = map_option payload (items st b)) \<and>
           trace st1 = trace st @
             [MutexLock sc, SourceRemoveChild (Some ssrc) (source it),
              SignalHandlerSignal ssrc ''item_remove'' (Some sc) a, MutexUnlock sc] \<and>
           obs_sceneitem_remove None st = Inr st"
proof -
  from a obtain ks ys where xs: "xs = ks @ a # ys" by (auto dest: split_list)
  have d: "distinct xs" using its by (auto simp: scene_items_def split: option.splits)
  then have r1: "remove1 a xs = ks @ ys" using xs by (simp add: remove1_append)
  have ne: "ref it \<noteq> 1" using held by auto
  from remove_item_spec[OF its[unfolded xs] sc src it par nr] ne
  obtain st1 where rm: "obs_sceneitem_remove (Some a) st = Inr st1"
    and its1: "scene_items st1 sc (ks @ ys)"
    and ia: "items st1 a = Some (it\<lparr>removed := True, parent := None, ref := ref it - 1\<rparr>)"
    and pay: "\<forall>b. b \<noteq> a \<longrightarrow> map_option payload (items st1 b) = map_option payload (items st b)"
    and tr: "trace st1 = trace st @ remove_calls sc ssrc a it"
    by auto
  have again: "obs_sceneitem_remove (Some a) st1 = Inr st1"
    using ia by (simp add: obs_sceneitem_remove_def get_item_def)
  have tr': "trace st1 = trace st @
             [MutexLock sc, SourceRemoveChild (Some ssrc) (source it),
              SignalHandlerSignal ssrc ''item_remove'' (Some sc) a, MutexUnlock sc]"
    using tr ne by (simp add: remove_calls_def)
  have null: "obs_sceneitem_remove None st = Inr st" by (simp add: obs_sceneitem_remove_def)
  show ?thesis
    using rm again its1[folded r1] ia pay tr' null by blast
qed

theorem remove_twice_once_witness:
  "scene_items ex_held 10 [0, 1] \<and>
   items ex_held 1 = Some ((new_item 10 201)\<lparr>prev := Some 0, ref := 2\<rparr>) \<and>
   parent ((new_item 10 201 :: int obs_scene_item)\<lparr>prev := Some 0, ref := 2\<rparr>) = Some 10 \<and>
   \<not> removed ((new_item 10 201 :: int obs_scene_item)\<lparr>prev := Some 0, ref := 2\<rparr>) \<and>
   sint (ref ((new_item 10 201 :: int obs_scene_item)\<lparr>prev := Some 0, ref := 2\<rparr>)) = 2 \<and>
   obs_sceneitem_remove (Some 1) ex_held =
     Inr (ex_held\<lparr>items := [0 \<mapsto> new_item 10 200,
              1 \<mapsto> (new_item 10 201)\<lparr>prev := Some 0, removed := True, parent := None, ref := 1\<rparr>],
            trace := [MutexLock 10, SourceRemoveChild (Some 100) (Some 201),
              SignalHandlerSignal 100 ''item_remove'' (Some 10) 1, MutexUnlock 10]\<rparr>) \<and>
   (\<exists>st1. obs_sceneitem_remove (Some 1) ex_held = Inr st1 \<and>
      obs_sceneitem_remove (Some 1) st1 = Inr st1 \<and>
      scene_items st1 10 (remove1 1 [0, 1]) \<and>
      items st1 1 =
        Some ((new_item 10 201)\<lparr>prev := Some 0, ref := 2\<rparr>
               \<lparr>removed := True, parent := None,
                  ref := ref ((new_item 10 201 :: int obs_scene_item)\<lparr>prev := Some 0, ref := 2\<rparr>) - 1\<rparr>) \<and>
      (\<forall>b. b \<noteq> 1 \<longrightarrow> map_option payload (items st1 b) = map_option payload (items ex_held b)) \<and>
      trace st1 = trace ex_held @
        [MutexLock 10, SourceRemoveChild (Some 100)
           (source ((new_item 10 201 :: int obs_scene_item)\<lparr>prev := Some 0, ref := 2\<rparr>)),
         SignalHandlerSignal 100 ''item_remove'' (Some 10) 1, MutexUnlock 10] \<and>
      obs_sceneitem_remove None ex_held = Inr ex_held)"
proof -
  let ?it = "(new_item 10 201 :: int obs_scene_item)\<lparr>prev := Some 0, ref := 2\<rparr>"
  have its: "scene_items ex_held 10 [0, 1]"
    by (simp add: scene_items_def ex_held_def new_item_def)
  have a: "1 \<in> set [0, 1::nat]" by simp
  have sc: "scenes ex_held 10 = Some \<lparr>obs_scene.source = Some 100, first_item = Some 0\<rparr>"
    by (simp add: ex_held_def)
  have it: "items ex_held 1 = Some ?it"
    by (simp add: ex_held_def)
  have src: "obs_scene.source \<lparr>obs_scene.source = Some 100, first_item = Some 0\<rparr> = Some 100"
    by simp
  have par: "parent ?it = Some 10" by (simp add: new_item_def)
  have nr: "\<not> removed ?it" by (simp add: new_item_def)
  have rf: "sint (ref ?it) = 2" by simp
  have held: "1 < sint (ref ?it)" by simp
  have ev: "obs_sceneitem_remove (Some 1) ex_held =
     Inr (ex_held\<lparr>items := [0 \<mapsto> new_item 10 200,
              1 \<mapsto> (new_item 10 201)\<lparr>prev := Some 0, removed := True, parent := None, ref := 1\<rparr>],
            trace := [MutexLock 10, SourceRemoveChild (Some 100) (Some 201),
              SignalHandlerSignal 100 ''item_remove'' (Some 10) 1, MutexUnlock 10]\<rparr>)"
    by (simp add: model_defs ex_held_def fun_eq_iff)
  show ?thesis
    by (intro conjI its it par nr rf ev remove_twice_once[OF its a sc src it par nr held])
qed

text \<open>
  C4 as stated speaks of every item. The item that \<open>obs_scene_add\<close> has just created
  has count 1: the first remove releases that reference, which destroys the item, and
  the second call reads the freed node.
\<close>

theorem remove_twice_freed:
  "scene_ok ex_one 10 [0] \<and>
   map_option ref (items ex_one 0) = Some 1 \<and>
   obs_sceneitem_remove (Some 0) ex_one =
     Inr (ex_one\<lparr>items := Map.empty,
            scenes := [10 \<mapsto> \<lparr>obs_scene.source = Some 100, first_item = None\<rparr>],
            trace := [MutexLock 10, SourceRemoveChild (Some 100) (Some 200),
              SignalHandlerSignal 100 ''item_remove'' (Some 10) 0, MutexUnlock 10,
              SourceRelease (Some 200), Bfree 0]\<rparr>) \<and>
   bindE (obs_sceneitem_remove (Some 0) ex_one) (obs_sceneitem_remove (Some 0)) = Inl UseAfterFree"
  by (simp add: model_defs ex_one_def scene_ok_def scene_items_def fun_eq_iff)

section \<open>Adding an item\<close>



section \<open>Removing all items\<close>

lemma remove_calls_payload:
  assumes "payload i = payload j"
  shows "remove_calls sc ssrc a i = remove_calls sc ssrc a j"
  using payload_eqD(1,4)[OF assms] by (simp add: remove_calls_def)

lemma emit_fields [simp]:
  "items (emit e st) = items st" "scenes (emit e st) = scenes st" "brk (emit e st) = brk st"
  "trace (emit e st) = trace st @ [e]"
  by (simp_all add: emit_def)

lemma scene_items_emit [simp]: "scene_items (emit e st) sc xs = scene_items st sc xs"
  by (simp add: scene_items_def cong: option.case_cong)

lemma scene_ok_emit [simp]: "scene_ok (emit e st) sc xs = scene_ok st sc xs"
  by (simp add: scene_ok_def)

lemma remove_calls_at_payload:
  "map_option payload (items st1 a) = map_option payload (items st a) \<Longrightarrow>
   remove_calls_at st1 sc ssrc a = remove_calls_at st sc ssrc a"
  by (cases "items st1 a"; cases "items st a")
     (auto simp: remove_calls_at_def dest: remove_calls_payload)

lemma detached_payload:
  "map_option payload (items st1 a) = map_option payload (items st a) \<Longrightarrow>
   detached st1 a = detached st a"
  by (cases "items st1 a"; cases "items st a") (auto simp: detached_def dest: payload_eqD)

lemma scene_ok_first:
  assumes "scene_ok st sc xs" and "scenes st sc = Some s"
  shows "first_item s = head_ptr xs None"
  using assms chain_head[of "items st" None "first_item s" xs None]
  by (simp add: scene_ok_def scene_items_def)

lemma scene_ok_next:
  assumes "scene_ok st sc (ks @ a # ys)" and "items st a = Some it"
  shows "next it = head_ptr ys None"
proof -
  from assms(1) obtain s where "scenes st sc = Some s"
    and "item_chain (items st) None (first_item s) (ks @ a # ys) None"
    by (auto simp: scene_ok_def scene_items_def split: option.splits)
  then have "item_chain (items st) (Some a) (next it) ys None"
    using assms(2) by (auto simp: chain_append)
  then show ?thesis by (rule chain_head)
qed

lemma remove_all_items_loop_spec:
  assumes "scene_ok st sc ys" and "scenes st sc = Some s" and "obs_scene.source s = Some ssrc"
  shows "\<exists>st'. remove_all_items_loop st (first_item s) = Some (Inr st') \<and>
           scene_ok st' sc [] \<and>
           (\<exists>s'. scenes st' sc = Some s' \<and> obs_scene.source s' = Some ssrc) \<and>
           (\<forall>sc'. sc' \<noteq> sc \<longrightarrow> scenes st' sc' = scenes st sc') \<and>
           (\<forall>a\<in>set ys. detached st' a) \<and>
           (\<forall>b. b \<notin> set ys \<longrightarrow> map_option payload (items st' b) = map_option payload (items st b)) \<and>
           (\<forall>b. items st b = None \<longrightarrow> items st' b = None) \<and>
           brk st' = brk st \<and>
           trace st' = trace st @ concat (map (remove_calls_at st sc ssrc) ys)"
  using assms
proof (induction ys arbitrary: st s)
  case Nil
  then have "first_item s = None" using scene_ok_first by fastforce
  then show ?case using Nil by (subst remove_all_items_loop.simps) simp
next
  case (Cons a ys)
  have fi: "first_item s = Some a" using scene_ok_first[OF Cons.prems(1,2)] by simp
  from scene_okD[OF Cons.prems(1), of a] obtain it where it: "items st a = Some it" by auto
  have nx: "next it = head_ptr ys None"
    using scene_ok_next[of st sc "[]" a ys it] Cons.prems(1) it by simp
  have d: "a \<notin> set ys" using Cons.prems(1) by (simp add: scene_ok_def scene_items_def)
  from remove_spec[of st sc "[]" a ys s ssrc it] Cons.prems it
  obtain st1 s1 where rm: "obs_sceneitem_remove (Some a) st = Inr st1"
    and ok1: "scene_ok st1 sc ys"
    and s1: "scenes st1 sc = Some s1" "obs_scene.source s1 = Some ssrc"
    and oth1: "\<forall>sc'. sc' \<noteq> sc \<longrightarrow> scenes st1 sc' = scenes st sc'"
    and ia: "items st1 a = (if ref it = 1 then None
                          else Some (it\<lparr>removed := True, parent := None, ref := ref it - 1\<rparr>))"
    and pay1: "\<forall>b. b \<noteq> a \<longrightarrow> map_option payload (items st1 b) = map_option payload (items st b)"
    and brk1: "brk st1 = brk st"
    and tr1: "trace st1 = trace st @ remove_calls sc ssrc a it"
    by auto
  have f1: "first_item s1 = next it" using scene_ok_first[OF ok1 s1(1)] nx by simp
  from Cons.IH[OF ok1 s1]
  obtain st' where lp: "remove_all_items_loop st1 (first_item s1) = Some (Inr st')"
    and ok': "scene_ok st' sc []"
    and s': "\<exists>s'. scenes st' sc = Some s' \<and> obs_scene.source s' = Some ssrc"
    and oth': "\<forall>sc'. sc' \<noteq> sc \<longrightarrow> scenes st' sc' = scenes st1 sc'"
    and det': "\<forall>a\<in>set ys. detached st' a"
    and pay': "\<forall>b. b \<notin> set ys \<longrightarrow> map_option payload (items st' b) = map_option payload (items st1 b)"
    and none': "\<forall>b. items st1 b = None \<longrightarrow> items st' b = None"
    and brk': "brk st' = brk st1"
    and tr': "trace st' = trace st1 @ concat (map (remove_calls_at st1 sc ssrc) ys)"
    by blast
  have run: "remove_all_items_loop st (first_item s) = Some (Inr st')"
    using fi it rm lp f1 by (subst remove_all_items_loop.simps) (simp add: get_item_def)
  have da: "detached st1 a" using ia by (simp add: detached_def)
  have "map_option payload (items st' a) = map_option payload (items st1 a)"
    using pay' d by simp
  then have da': "detached st' a" using da detached_payload by blast
  have calls: "map (remove_calls_at st1 sc ssrc) ys = map (remove_calls_at st sc ssrc) ys"
    using pay1 d by (intro map_cong refl remove_calls_at_payload) auto
  have none1: "\<forall>b. items st b = None \<longrightarrow> items st1 b = None"
  proof (intro allI impI)
    fix b assume b: "items st b = None"
    then have "b \<noteq> a" using it by auto
    then have "map_option payload (items st1 b) = map_option payload (items st b)"
      using pay1 by simp
    then show "items st1 b = None" using b by simp
  qed
  show ?case
  proof (intro exI[of _ st'] conjI allI impI ballI)
    show "remove_all_items_loop st (first_item s) = Some (Inr st')" by (rule run)
    show "scene_ok st' sc []" by (rule ok')
    show "\<exists>s'. scenes st' sc = Some s' \<and> obs_scene.source s' = Some ssrc" by (rule s')
    show "scenes st' sc' = scenes st sc'" if "sc' \<noteq> sc" for sc'
      using that oth' oth1 by simp
    show "detached st' b" if "b \<in> set (a # ys)" for b
      using that da' det' by auto
    show "map_option payload (items st' b) = map_option payload (items st b)"
      if "b \<notin> set (a # ys)" for b
      using that pay' pay1 by simp
    show "items st' b = None" if "items st b = None" for b
      using that none1 none' by simp
    show "brk st' = brk st" using brk' brk1 by simp
    show "trace st' = trace st @ concat (map (remove_calls_at st sc ssrc) (a # ys))"
      using tr' tr1 calls it by (simp add: remove_calls_at_def)
  qed
qed

lemma remove_all_items_spec:
  assumes ok: "scene_ok st sc ys" and sc: "scenes st sc = Some s"
    and src: "obs_scene.source s = Some ssrc"
  shows "\<exists>st'. remove_all_items sc st = Some (Inr st') \<and>
           scene_ok st' sc [] \<and>
           (\<exists>s'. scenes st' sc = Some s' \<and> obs_scene.source s' = Some ssrc) \<and>
           (\<forall>sc'. sc' \<noteq> sc \<longrightarrow> scenes st' sc' = scenes st sc') \<and>
           (\<forall>a\<in>set ys. detached st' a) \<and>
           (\<forall>b. b \<notin> set ys \<longrightarrow> map_option payload (items st' b) = map_option payload (items st b)) \<and>
           (\<forall>b. items st b = None \<longrightarrow> items st' b = None) \<and>
           brk st' = brk st \<and>
           trace st' = trace st @ [MutexLock sc] @ concat (map (remove_calls_at st sc ssrc) ys) @
             [MutexUnlock sc]"
proof -
  let ?st1 = "emit (MutexLock sc) st"
  have ok1: "scene_ok ?st1 sc ys" using ok by simp
  have sc1: "scenes ?st1 sc = Some s" using sc by simp
  from remove_all_items_loop_spec[OF ok1 sc1 src]
  obtain st2 where lp: "remove_all_items_loop ?st1 (first_item s) = Some (Inr st2)"
    and ok2: "scene_ok st2 sc []"
    and s2: "\<exists>s'. scenes st2 sc = Some s' \<and> obs_scene.source s' = Some ssrc"
    and oth2: "\<forall>sc'. sc' \<noteq> sc \<longrightarrow> scenes st2 sc' = scenes ?st1 sc'"
    and det2: "\<forall>a\<in>set ys. detached st2 a"
    and pay2: "\<forall>b. b \<notin> set ys \<longrightarrow> map_option payload (items st2 b) = map_option payload (items ?st1 b)"
    and none2: "\<forall>b. items ?st1 b = None \<longrightarrow> items st2 b = None"
    and brk2: "brk st2 = brk ?st1"
    and tr2: "trace st2 = trace ?st1 @ concat (map (remove_calls_at ?st1 sc ssrc) ys)"
    by blast
  let ?st' = "emit (MutexUnlock sc) st2"
  have run: "remove_all_items sc st = Some (Inr ?st')"
    using sc lp s2 by (auto simp: remove_all_items_def mutex_lock_def mutex_unlock_def get_scene_def)
  have calls: "remove_calls_at ?st1 sc ssrc = remove_calls_at st sc ssrc"
    by (rule ext) (simp add: remove_calls_at_def)
  show ?thesis
  proof (intro exI[of _ ?st'] conjI)
    show "remove_all_items sc st = Some (Inr ?st')" by (rule run)
    show "scene_ok ?st' sc []" using ok2 by simp
    show "\<exists>s'. scenes ?st' sc = Some s' \<and> obs_scene.source s' = Some ssrc"
      using s2 by simp
    show "\<forall>sc'. sc' \<noteq> sc \<longrightarrow> scenes ?st' sc' = scenes st sc'"
      using oth2 by simp
    show "\<forall>a\<in>set ys. detached ?st' a" using det2 by (simp add: detached_def)
    show "\<forall>b. b \<notin> set ys \<longrightarrow> map_option payload (items ?st' b) = map_option payload (items st b)"
      using pay2 by simp
    show "\<forall>b. items st b = None \<longrightarrow> items ?st' b = None" using none2 by simp
    show "brk ?st' = brk st" using brk2 by simp
    show "trace ?st' = trace st @ [MutexLock sc] @ concat (map (remove_calls_at st sc ssrc) ys) @
             [MutexUnlock sc]"
      using tr2 calls by simp
  qed
qed

section \<open>Loading and saving\<close>

lemma upd_item_Some:
  "items st a = Some it \<Longrightarrow> upd_item a f st = Inr (st\<lparr>items := (items st)(a \<mapsto> f it)\<rparr>)"
  by (simp add: upd_item_def)

lemma scene_load_item_spec:
  fixes st :: "('f::{zero,one}) state"
  assumes its: "scene_items st sc xs" and sc: "scenes st sc = Some s"
    and ssrc: "obs_scene.source s = Some ssrc" and fresh: "items st (brk st) = None"
    and res: "by_name (data_name r) = Some src"
  shows "\<exists>st'. scene_load_item by_name to_float sc r st = Some (Inr st') \<and>
           scene_items st' sc (xs @ [brk st]) \<and>
           map_option payload (items st' (brk st)) =
             map_option payload (loaded_item by_name to_float sc r) \<and>
           (\<forall>b. b \<noteq> brk st \<longrightarrow> map_option payload (items st' b) = map_option payload (items st b)) \<and>
           (\<exists>s'. scenes st' sc = Some s' \<and> obs_scene.source s' = Some ssrc) \<and>
           (\<forall>sc'. sc' \<noteq> sc \<longrightarrow> scenes st' sc' = scenes st sc') \<and>
           brk st' = Suc (brk st) \<and>
           trace st' = trace st @
             [SourceAddref (Some src), SourceAddChild (Some ssrc) (Some src), MutexLock sc,
              MutexUnlock sc, SignalHandlerSignal ssrc ''item_add'' (Some sc) (brk st),
              SourceRelease (Some src)]"
proof -
  define a where "a = brk st"
  from add_spec[OF its sc ssrc fresh, of src]
  obtain st1 where ad: "obs_scene_add (Some sc) (Some src) st = Some (Inr (Some a, st1))"
    and l1: "scene_items st1 sc (xs @ [a])"
    and i1: "items st1 a = Some ((new_item sc src)\<lparr>prev := last_ptr None xs\<rparr>)"
    and p1: "\<forall>b. b \<noteq> a \<longrightarrow> map_option payload (items st1 b) = map_option payload (items st b)"
    and s1: "\<exists>s'. scenes st1 sc = Some s' \<and> obs_scene.source s' = Some ssrc"
    and o1: "\<forall>sc'. sc' \<noteq> sc \<longrightarrow> scenes st1 sc' = scenes st sc'"
    and b1: "brk st1 = Suc (brk st)"
    and t1: "trace st1 = trace st @
             [SourceAddref (Some src), SourceAddChild (Some ssrc) (Some src), MutexLock sc,
              MutexUnlock sc, SignalHandlerSignal ssrc ''item_add'' (Some sc) a]"
    unfolding a_def by blast
  define it' :: "'f obs_scene_item" where
    "it' = (new_item sc src)\<lparr>prev := last_ptr None xs, rot := to_float (data_rot r),
             visible := data_visible r, origin := data_origin r, pos := data_pos r,
             scale := data_scale r\<rparr>"
  define st' where
    "st' = emit (SourceRelease (Some src)) (st1\<lparr>items := (items st1)(a \<mapsto> it')\<rparr>)"
  have run: "scene_load_item by_name to_float sc r st = Some (Inr st')"
    using res ad i1 by (simp add: scene_load_item_def upd_item_def st'_def it'_def)
  have links: "prev it' = last_ptr None xs" "next it' = None"
    by (simp_all add: it'_def new_item_def)
  obtain s1' where s1': "scenes st1 sc = Some s1'" using s1 by blast
  have ch1: "item_chain (items st1) None (first_item s1') (xs @ [a]) None" and d: "distinct (xs @ [a])"
    using l1 s1' by (simp_all add: scene_items_def)
  have ch': "item_chain ((items st1)(a \<mapsto> it')) None (first_item s1') (xs @ [a]) None"
    using ch1 by (subst chain_frame[where h = "items st1"]) (use i1 links in \<open>auto simp: new_item_def\<close>)
  have l': "scene_items st' sc (xs @ [a])"
    using ch' d s1' by (simp add: st'_def scene_items_def)
  have pa: "map_option payload (items st' a) = map_option payload (loaded_item by_name to_float sc r)"
    using res by (simp add: st'_def loaded_item_def it'_def payload_def)
  show ?thesis
  proof (intro exI[of _ st'] conjI allI impI)
    show "scene_load_item by_name to_float sc r st = Some (Inr st')" by (rule run)
    show "scene_items st' sc (xs @ [brk st])" using l' by (simp add: a_def)
    show "map_option payload (items st' (brk st)) =
             map_option payload (loaded_item by_name to_float sc r)"
      using pa by (simp add: a_def)
    show "map_option payload (items st' b) = map_option payload (items st b)" if "b \<noteq> brk st" for b
      using that p1 by (simp add: st'_def a_def)
    show "\<exists>s'. scenes st' sc = Some s' \<and> obs_scene.source s' = Some ssrc"
      using s1 by (simp add: st'_def)
    show "scenes st' sc' = scenes st sc'" if "sc' \<noteq> sc" for sc'
      using that o1 by (simp add: st'_def)
    show "brk st' = Suc (brk st)" using b1 by (simp add: st'_def)
    show "trace st' = trace st @
             [SourceAddref (Some src), SourceAddChild (Some ssrc) (Some src), MutexLock sc,
              MutexUnlock sc, SignalHandlerSignal ssrc ''item_add'' (Some sc) (brk st),
              SourceRelease (Some src)]"
      using t1 by (simp add: st'_def a_def)
  qed
qed

lemma scene_load_items_spec:
  fixes st :: "('f::{zero,one}) state"
  assumes "scene_items st sc xs" and "scenes st sc = Some s"
    and "obs_scene.source s = Some ssrc" and "heap_fresh st"
  shows "\<exists>st' ys. scene_load_items by_name to_float sc recs st = Some (Inr st') \<and>
           scene_items st' sc (xs @ ys) \<and>
           map (\<lambda>a. map_option payload (items st' a)) ys =
             map (\<lambda>i. Some (payload i)) (List.map_filter (loaded_item by_name to_float sc) recs) \<and>
           (\<forall>a\<in>set ys. brk st \<le> a) \<and>
           (\<forall>b. b < brk st \<longrightarrow> map_option payload (items st' b) = map_option payload (items st b)) \<and>
           (\<exists>s'. scenes st' sc = Some s' \<and> obs_scene.source s' = Some ssrc) \<and>
           (\<forall>sc'. sc' \<noteq> sc \<longrightarrow> scenes st' sc' = scenes st sc') \<and>
           heap_fresh st' \<and>
           trace st' = trace st @ load_calls by_name sc ssrc (brk st) recs"
  using assms
proof (induction recs arbitrary: st xs s)
  case Nil
  show ?case using Nil.prems by (intro exI[of _ st] exI[of _ "[]"]) (simp add: List.map_filter_simps)
next
  case (Cons r recs)
  show ?case
  proof (cases "by_name (data_name r)")
    case None
    let ?st1 = "emit (Blog LOG_WARNING ''[scene_load_item] Source %s not found!'' [data_name r]) st"
    have step: "scene_load_item by_name to_float sc r st = Some (Inr ?st1)"
      using None by (simp add: scene_load_item_def)
    have "scene_items ?st1 sc xs" "scenes ?st1 sc = Some s" "heap_fresh ?st1"
      using Cons.prems by (simp_all add: heap_fresh_def)
    from Cons.IH[OF this(1,2) Cons.prems(3) this(3)]
    obtain st' ys where
      "scene_load_items by_name to_float sc recs ?st1 = Some (Inr st')"
      "scene_items st' sc (xs @ ys)"
      "map (\<lambda>a. map_option payload (items st' a)) ys =
             map (\<lambda>i. Some (payload i)) (List.map_filter (loaded_item by_name to_float sc) recs)"
      "\<forall>a\<in>set ys. brk ?st1 \<le> a"
      "\<forall>b. b < brk ?st1 \<longrightarrow> map_option payload (items st' b) = map_option payload (items ?st1 b)"
      "\<exists>s'. scenes st' sc = Some s' \<and> obs_scene.source s' = Some ssrc"
      "\<forall>sc'. sc' \<noteq> sc \<longrightarrow> scenes st' sc' = scenes ?st1 sc'"
      "heap_fresh st'"
      "trace st' = trace ?st1 @ load_calls by_name sc ssrc (brk ?st1) recs"
      by blast
    moreover have "loaded_item by_name to_float sc r = None"
      using None by (simp add: loaded_item_def)
    ultimately show ?thesis using step None
      by (intro exI[of _ st'] exI[of _ ys]) (simp add: List.map_filter_simps)
  next
    case (Some src)
    define a where "a = brk st"
    have fresh: "items st (brk st) = None" using Cons.prems(4) by (simp add: heap_fresh_def)
    from scene_load_item_spec[where by_name = by_name and r = r and to_float = to_float,
        OF Cons.prems(1,2,3) fresh Some]
    obtain st1 where step: "scene_load_item by_name to_float sc r st = Some (Inr st1)"
      and l1: "scene_items st1 sc (xs @ [a])"
      and i1: "map_option payload (items st1 a) = map_option payload (loaded_item by_name to_float sc r)"
      and p1: "\<forall>b. b \<noteq> a \<longrightarrow> map_option payload (items st1 b) = map_option payload (items st b)"
      and s1: "\<exists>s'. scenes st1 sc = Some s' \<and> obs_scene.source s' = Some ssrc"
      and o1: "\<forall>sc'. sc' \<noteq> sc \<longrightarrow> scenes st1 sc' = scenes st sc'"
      and b1: "brk st1 = Suc a"
      and t1: "trace st1 = trace st @
             [SourceAddref (Some src), SourceAddChild (Some ssrc) (Some src), MutexLock sc,
              MutexUnlock sc, SignalHandlerSignal ssrc ''item_add'' (Some sc) a,
              SourceRelease (Some src)]"
      unfolding a_def by blast
    obtain s1' where s1': "scenes st1 sc = Some s1'" "obs_scene.source s1' = Some ssrc"
      using s1 by blast
    have f1: "heap_fresh st1"
      unfolding heap_fresh_def
    proof (intro allI impI)
      fix b assume "brk st1 \<le> b"
      then have "b \<noteq> a" "brk st \<le> b" using b1 by (simp_all add: a_def)
      then have "map_option payload (items st1 b) = None"
        using p1 Cons.prems(4) by (simp add: heap_fresh_def)
      then show "items st1 b = None" by simp
    qed
    from Cons.IH[OF l1 s1' f1]
    obtain st' ys where run': "scene_load_items by_name to_float sc recs st1 = Some (Inr st')"
      and l': "scene_items st' sc ((xs @ [a]) @ ys)"
      and m': "map (\<lambda>a. map_option payload (items st' a)) ys =
             map (\<lambda>i. Some (payload i)) (List.map_filter (loaded_item by_name to_float sc) recs)"
      and g': "\<forall>a\<in>set ys. brk st1 \<le> a"
      and p': "\<forall>b. b < brk st1 \<longrightarrow> map_option payload (items st' b) = map_option payload (items st1 b)"
      and s': "\<exists>s'. scenes st' sc = Some s' \<and> obs_scene.source s' = Some ssrc"
      and o': "\<forall>sc'. sc' \<noteq> sc \<longrightarrow> scenes st' sc' = scenes st1 sc'"
      and f': "heap_fresh st'"
      and t': "trace st' = trace st1 @ load_calls by_name sc ssrc (brk st1) recs"
      by blast
    obtain li where li: "loaded_item by_name to_float sc r = Some li"
      using Some by (simp add: loaded_item_def)
    have ia: "map_option payload (items st' a) = Some (payload li)"
      using p' i1 li b1 by simp
    show ?thesis
    proof (intro exI[of _ st'] exI[of _ "a # ys"] conjI allI impI ballI)
      show "scene_load_items by_name to_float sc (r # recs) st = Some (Inr st')"
        using step run' by simp
      show "scene_items st' sc (xs @ a # ys)" using l' by simp
      show "map (\<lambda>a. map_option payload (items st' a)) (a # ys) =
             map (\<lambda>i. Some (payload i)) (List.map_filter (loaded_item by_name to_float sc) (r # recs))"
        using m' ia li by (simp add: List.map_filter_simps)
      show "brk st \<le> b" if "b \<in> set (a # ys)" for b
        using that g' b1 by (auto simp: a_def)
      show "map_option payload (items st' b) = map_option payload (items st b)" if "b < brk st" for b
        using that p' p1 b1 by (simp add: a_def)
      show "\<exists>s'. scenes st' sc = Some s' \<and> obs_scene.source s' = Some ssrc" by (rule s')
      show "scenes st' sc' = scenes st sc'" if "sc' \<noteq> sc" for sc'
        using that o' o1 by simp
      show "heap_fresh st'" by (rule f')
      show "trace st' = trace st @ load_calls by_name sc ssrc (brk st) (r # recs)"
        using t' t1 b1 Some by (simp add: a_def)
    qed
  qed
qed

lemma heap_fresh_live: "heap_fresh st \<Longrightarrow> items st a = Some it \<Longrightarrow> a < brk st"
  by (rule ccontr) (simp add: heap_fresh_def not_less)

lemma length_map_filter:
  "length (List.map_filter f xs) = length (filter (\<lambda>x. f x \<noteq> None) xs)"
  by (induction xs) (auto simp: List.map_filter_simps split: option.splits)

lemma scene_load_spec:
  fixes st :: "('f::{zero,one}) state"
  assumes ok: "scene_ok st sc xs" and sc: "scenes st sc = Some s"
    and ssrc: "obs_scene.source s = Some ssrc" and fresh: "heap_fresh st"
  shows "\<exists>st' ys. scene_load by_name to_float sc (Some recs) st = Some (Inr st') \<and>
           scene_items st' sc ys \<and>
           set ys \<inter> set xs = {} \<and>
           (\<forall>a\<in>set xs. detached st' a) \<and>
           map (\<lambda>a. map_option payload (items st' a)) ys =
             map (\<lambda>i. Some (payload i)) (List.map_filter (loaded_item by_name to_float sc) recs) \<and>
           trace st' = trace st @ [MutexLock sc] @ concat (map (remove_calls_at st sc ssrc) xs) @
             [MutexUnlock sc] @ load_calls by_name sc ssrc (brk st) recs"
proof -
  from remove_all_items_spec[OF ok sc ssrc]
  obtain st1 s1 where rm: "remove_all_items sc st = Some (Inr st1)"
    and ok1: "scene_ok st1 sc []"
    and s1: "scenes st1 sc = Some s1" "obs_scene.source s1 = Some ssrc"
    and det1: "\<forall>a\<in>set xs. detached st1 a"
    and none1: "\<forall>b. items st b = None \<longrightarrow> items st1 b = None"
    and brk1: "brk st1 = brk st"
    and tr1: "trace st1 = trace st @ [MutexLock sc] @ concat (map (remove_calls_at st sc ssrc) xs) @
             [MutexUnlock sc]"
    by blast
  have its1: "scene_items st1 sc []" using ok1 by (simp add: scene_ok_def)
  have f1: "heap_fresh st1" using fresh none1 brk1 by (simp add: heap_fresh_def)
  from scene_load_items_spec[OF its1 s1 f1, of by_name to_float recs]
  obtain st' ys where ld: "scene_load_items by_name to_float sc recs st1 = Some (Inr st')"
    and l': "scene_items st' sc ([] @ ys)"
    and m': "map (\<lambda>a. map_option payload (items st' a)) ys =
             map (\<lambda>i. Some (payload i)) (List.map_filter (loaded_item by_name to_float sc) recs)"
    and g': "\<forall>a\<in>set ys. brk st1 \<le> a"
    and p': "\<forall>b. b < brk st1 \<longrightarrow> map_option payload (items st' b) = map_option payload (items st1 b)"
    and t': "trace st' = trace st1 @ load_calls by_name sc ssrc (brk st1) recs"
    by blast
  have old: "a < brk st" if "a \<in> set xs" for a
    using scene_okD[OF ok that] heap_fresh_live[OF fresh] by blast
  show ?thesis
  proof (intro exI[of _ st'] exI[of _ ys] conjI ballI)
    show "scene_load by_name to_float sc (Some recs) st = Some (Inr st')"
      using rm ld by (simp add: scene_load_def)
    show "scene_items st' sc ys" using l' by simp
    show "set ys \<inter> set xs = {}" using g' old brk1 by fastforce
    show "detached st' a" if "a \<in> set xs" for a
    proof -
      have "map_option payload (items st' a) = map_option payload (items st1 a)"
        using p' old[OF that] brk1 by simp
      then show ?thesis using det1 that detached_payload by blast
    qed
    show "map (\<lambda>a. map_option payload (items st' a)) ys =
             map (\<lambda>i. Some (payload i)) (List.map_filter (loaded_item by_name to_float sc) recs)"
      by (rule m')
    show "trace st' = trace st @ [MutexLock sc] @ concat (map (remove_calls_at st sc ssrc) xs) @
             [MutexUnlock sc] @ load_calls by_name sc ssrc (brk st) recs"
      using t' tr1 brk1 by simp
  qed
qed

lemma scene_save_loop_chain:
  "item_chain (items st) p c ys None \<Longrightarrow>
   scene_save_loop getname to_double st array c =
     Some (Inr (array @ saved_records getname to_double st ys))"
proof (induction ys arbitrary: p c array)
  case Nil
  then show ?case by (subst scene_save_loop.simps) (simp add: saved_records_def)
next
  case (Cons a ys)
  from Cons.prems obtain it where it: "c = Some a" "items st a = Some it"
    and rest: "item_chain (items st) (Some a) (next it) ys None"
    by (auto split: option.splits)
  have "scene_save_loop getname to_double st (scene_save_item getname to_double array it) (next it)
      = Some (Inr (scene_save_item getname to_double array it @ saved_records getname to_double st ys))"
    by (rule Cons.IH[OF rest])
  then show ?case using it
    by (subst scene_save_loop.simps) (simp add: get_item_def saved_records_def scene_save_item_def)
qed

lemma scene_save_spec:
  assumes its: "scene_items st sc xs"
  shows "scene_save getname to_double sc st =
    Some (Inr (saved_records getname to_double st xs,
               emit (MutexUnlock sc) (emit (MutexLock sc) st)))"
proof -
  from its obtain s where sc: "scenes st sc = Some s"
    and ch: "item_chain (items st) None (first_item s) xs None"
    by (auto simp: scene_items_def split: option.splits)
  have "scene_save_loop getname to_double (emit (MutexLock sc) st) [] (first_item s) =
     Some (Inr ([] @ saved_records getname to_double (emit (MutexLock sc) st) xs))"
    by (rule scene_save_loop_chain[where p = None]) (use ch in simp)
  moreover have "saved_records getname to_double (emit (MutexLock sc) st) xs =
      saved_records getname to_double st xs"
    by (simp add: saved_records_def)
  ultimately show ?thesis using sc
    by (simp add: scene_save_def mutex_lock_def mutex_unlock_def get_scene_def)
qed

lemma reload_items:
  fixes st :: "('f::{zero,one}) state"
  assumes live: "\<forall>a\<in>set xs. \<exists>it. items st a = Some it \<and> by_name (getname (source it)) \<noteq> None"
    and rt: "\<forall>v. to_float (to_double v) = v"
  shows "map (\<lambda>i. Some (source i, item_transform i))
           (List.map_filter (loaded_item by_name to_float sc2) (saved_records getname to_double st xs))
         = map (\<lambda>a. map_option (\<lambda>i. (by_name (getname (source i)), item_transform i)) (items st a)) xs"
  using live
proof (induction xs)
  case Nil
  show ?case by (simp add: saved_records_def List.map_filter_simps)
next
  case (Cons a xs)
  from Cons.prems obtain it src where it: "items st a = Some it"
    and src: "by_name (getname (source it)) = Some src"
    by auto
  have sv: "saved_records getname to_double st (a # xs) =
      \<lparr>data_name = getname (source it), data_visible = visible it,
        data_rot = to_double (rot it), data_origin = origin it, data_pos = pos it,
        data_scale = scale it\<rparr> # saved_records getname to_double st xs"
    using it by (simp add: saved_records_def scene_save_item_def)
  have ih: "map (\<lambda>i. Some (source i, item_transform i))
           (List.map_filter (loaded_item by_name to_float sc2) (saved_records getname to_double st xs))
         = map (\<lambda>a. map_option (\<lambda>i. (by_name (getname (source i)), item_transform i)) (items st a)) xs"
    using Cons.prems by (intro Cons.IH) simp
  let ?r = "\<lparr>data_name = getname (source it), data_visible = visible it,
        data_rot = to_double (rot it), data_origin = origin it, data_pos = pos it,
        data_scale = scale it\<rparr>"
  obtain li where li: "loaded_item by_name to_float sc2 ?r = Some li"
    and tr: "item_transform li = item_transform it" and ls: "source li = Some src"
    using src rt by (simp add: loaded_item_def item_transform_def new_item_def)
  show ?case
    using ih it li tr ls src by (simp add: sv List.map_filter_simps)
qed

text \<open>
  On a scene in its regular state (every listed item names the scene as parent and is not
  flagged removed) \<open>scene_load\<close> of a record array returns, whatever names resolve. It
  first removes every existing item under the lock, and only then works through the
  records in order: a record whose name resolves gives exactly one new item at the tail,
  carrying the values of the record; a record whose name does not resolve gives one
  logged warning and nothing else, and the records after it are still loaded.
\<close>

lemma scene_load_regular:
  fixes st :: "('f::{zero,one}) state"
  assumes ok: "scene_ok st sc xs" and sc: "scenes st sc = Some s"
    and ssrc: "obs_scene.source s = Some ssrc" and fresh: "heap_fresh st"
  shows "\<exists>st' ys. scene_load by_name to_float sc (Some recs) st = Some (Inr st') \<and>
           scene_items st' sc ys \<and>
           set ys \<inter> set xs = {} \<and>
           (\<forall>a\<in>set xs. detached st' a) \<and>
           length ys = length (filter (\<lambda>r. by_name (data_name r) \<noteq> None) recs) \<and>
           map (\<lambda>a. map_option payload (items st' a)) ys =
             map (\<lambda>i. Some (payload i)) (List.map_filter (loaded_item by_name to_float sc) recs) \<and>
           trace st' = trace st @ [MutexLock sc] @ concat (map (remove_calls_at st sc ssrc) xs) @
             [MutexUnlock sc] @ load_calls by_name sc ssrc (brk st) recs"
proof -
  from scene_load_spec[OF ok sc ssrc fresh, of by_name to_float recs]
  obtain st' ys where ld: "scene_load by_name to_float sc (Some recs) st = Some (Inr st')"
    and l: "scene_items st' sc ys" and dj: "set ys \<inter> set xs = {}"
    and det: "\<forall>a\<in>set xs. detached st' a"
    and m: "map (\<lambda>a. map_option payload (items st' a)) ys =
             map (\<lambda>i. Some (payload i)) (List.map_filter (loaded_item by_name to_float sc) recs)"
    and t: "trace st' = trace st @ [MutexLock sc] @ concat (map (remove_calls_at st sc ssrc) xs) @
             [MutexUnlock sc] @ load_calls by_name sc ssrc (brk st) recs"
    by blast
  have "length ys = length (List.map_filter (loaded_item by_name to_float sc) recs)"
    using arg_cong[OF m, of length] by simp
  also have "\<dots> = length (filter (\<lambda>r. loaded_item by_name to_float sc r \<noteq> None) recs)"
    by (rule length_map_filter)
  also have "\<dots> = length (filter (\<lambda>r. by_name (data_name r) \<noteq> None) recs)"
    by (simp add: loaded_item_def)
  finally have len: "length ys = length (filter (\<lambda>r. by_name (data_name r) \<noteq> None) recs)" .
  show ?thesis using ld l dj det len m t by blast
qed

text \<open>
  C7 (the code fails here). Claim: for every record array \<open>scene_load\<close> removes every
  existing item and then adds one item per resolvable record in order, skipping an
  unresolvable record with a warning, without aborting.
  On the scene with the items 0, 1 as \<open>obs_scene_add\<close> made them, the code does so: the two
  old items are removed and freed, the records a and c give the items 2 and 3 with the
  values of the records, the record b gives the warning. But after
  \<open>obs_sceneitem_setorder\<close> with movement up on item 1, which returns and leaves the list
  0, 1, the parent of item 1 is NULL (\<open>detach_sceneitem\<close> clears it and nothing sets it
  again, the defect of C1 to C3); \<open>remove_all_items\<close> then calls \<open>obs_sceneitem_remove\<close> on
  item 1, which stops at its \<open>assert(scene != NULL)\<close> before any record is read.
\<close>

theorem scene_load_after_setorder_assert:
  "map_option (map_sum id (\<lambda>st. (scene_items st 10 [0, 1], map_option parent (items st 1))))
     (obs_sceneitem_setorder (Some 1) ORDER_MOVE_UP ex_two) = Some (Inr (True, Some None)) \<and>
   bindO (obs_sceneitem_setorder (Some 1) ORDER_MOVE_UP ex_two)
     (scene_load ex_registry (\<lambda>v::int. v) 10 (Some ex_records)) = Some (Inl AssertFailed) \<and>
   map_option (map_sum id (\<lambda>st. (scene_items st 10 [2, 3], items st 0, items st 1,
       map (\<lambda>a. map_option (\<lambda>i. (source i, item_transform i)) (items st a)) [2, 3], trace st)))
     (scene_load ex_registry (\<lambda>v::int. v) 10 (Some ex_records) ex_two) =
     Some (Inr (True, None, None,
       [Some (Some 300, 5, False, Vec2 1 2, Vec2 3 4, Vec2 5 6),
        Some (Some 301, 7, True, Vec2 1 1, Vec2 2 2, Vec2 3 3)],
       [MutexLock 10,
        MutexLock 10, SourceRemoveChild (Some 100) (Some 200),
        SignalHandlerSignal 100 ''item_remove'' (Some 10) 0, MutexUnlock 10,
        SourceRelease (Some 200), Bfree 0,
        MutexLock 10, SourceRemoveChild (Some 100) (Some 201),
        SignalHandlerSignal 100 ''item_remove'' (Some 10) 1, MutexUnlock 10,
        SourceRelease (Some 201), Bfree 1,
        MutexUnlock 10,
        SourceAddref (Some 300), SourceAddChild (Some 100) (Some 300), MutexLock 10,
        MutexUnlock 10, SignalHandlerSignal 100 ''item_add'' (Some 10) 2, SourceRelease (Some 300),
        Blog LOG_WARNING ''[scene_load_item] Source %s not found!'' [''b''],
        SourceAddref (Some 301), SourceAddChild (Some 100) (Some 301), MutexLock 10,
        MutexUnlock 10, SignalHandlerSignal 100 ''item_add'' (Some 10) 3,
        SourceRelease (Some 301)]))"
  by (simp add: scene_load_def remove_all_items_def remove_all_items_loop.simps
      scene_load_item_def model_defs walk_to_last.simps ex_two_def ex_records_def
      ex_registry_def scene_items_def item_transform_def)

text \<open>
  C6. A scene with a well-formed list is saved; the names of the sources of all its items
  resolve in the registry; the records are loaded into a scene with an empty list (in any
  state whose allocator is fresh). Both calls return, the loaded scene has as many items
  as the saved one, and item by item, in list order, the source of the loaded item is the
  one the registry resolves for the name of the original's source, and rot, visible,
  origin, pos and scale are those of the original. The conversion from float to double and
  back is assumed to give the float back (every float is a double).
\<close>

theorem save_load_round_trip:
  fixes st :: "('f::{zero,one}) state" and st2 :: "'f state"
  assumes S: "scene_items st sc xs"
    and S2: "scenes st2 sc2 = Some s2" "first_item s2 = None" "obs_scene.source s2 = Some ssrc2"
    and fresh: "heap_fresh st2"
    and res: "\<forall>a\<in>set xs. \<forall>it. items st a = Some it \<longrightarrow> by_name (getname (source it)) \<noteq> None"
    and rt: "\<forall>v. to_float (to_double v) = v"
  shows "\<exists>recs st1 st3 ys.
           scene_save getname to_double sc st = Some (Inr (recs, st1)) \<and>
           scene_load by_name to_float sc2 (Some recs) st2 = Some (Inr st3) \<and>
           scene_items st3 sc2 ys \<and>
           length ys = length xs \<and>
           map (\<lambda>a. map_option (\<lambda>i. (source i, item_transform i)) (items st3 a)) ys =
             map (\<lambda>a. map_option (\<lambda>i. (by_name (getname (source i)), item_transform i))
                    (items st a)) xs"
proof -
  let ?recs = "saved_records getname to_double st xs"
  have sv: "scene_save getname to_double sc st =
    Some (Inr (?recs, emit (MutexUnlock sc) (emit (MutexLock sc) st)))"
    by (rule scene_save_spec[OF S])
  have ok2: "scene_ok st2 sc2 []" using S2 by (simp add: scene_ok_def scene_items_def)
  from scene_load_spec[OF ok2 S2(1,3) fresh, of by_name to_float ?recs]
  obtain st3 ys where ld: "scene_load by_name to_float sc2 (Some ?recs) st2 = Some (Inr st3)"
    and l: "scene_items st3 sc2 ys"
    and m: "map (\<lambda>a. map_option payload (items st3 a)) ys =
             map (\<lambda>i. Some (payload i)) (List.map_filter (loaded_item by_name to_float sc2) ?recs)"
    by blast
  from S obtain s where "scenes st sc = Some s"
    and ch: "item_chain (items st) None (first_item s) xs None"
    by (auto simp: scene_items_def split: option.splits)
  have live: "\<forall>a\<in>set xs. \<exists>it. items st a = Some it \<and> by_name (getname (source it)) \<noteq> None"
    using chain_live[OF ch] res by blast
  define content :: "'f obs_scene_item \<Rightarrow> _" where "content = (\<lambda>i. (source i, item_transform i))"
  have tp: "content (payload i) = content i" for i :: "'f obs_scene_item"
    by (simp add: content_def item_transform_def)
  have "map (\<lambda>a. map_option content (items st3 a)) ys =
        map (map_option content) (map (\<lambda>a. map_option payload (items st3 a)) ys)"
    by (simp add: option.map_comp comp_def tp)
  also have "\<dots> = map (\<lambda>i. Some (content i))
        (List.map_filter (loaded_item by_name to_float sc2) ?recs)"
    by (simp add: m comp_def tp)
  also have "\<dots> = map (\<lambda>a. map_option (\<lambda>i. (by_name (getname (source i)), item_transform i))
                    (items st a)) xs"
    unfolding content_def
    by (rule reload_items[where by_name = by_name and getname = getname
          and to_float = to_float and to_double = to_double, OF live rt])
  finally have tr: "map (\<lambda>a. map_option (\<lambda>i. (source i, item_transform i)) (items st3 a)) ys =
        map (\<lambda>a. map_option (\<lambda>i. (by_name (getname (source i)), item_transform i))
                    (items st a)) xs"
    unfolding content_def .
  have len: "length ys = length xs" using arg_cong[OF tr, of length] by simp
  show ?thesis using sv ld l len tr by blast
qed

theorem save_load_round_trip_witness:
  "scene_items ex_pair 10 [0, 1] \<and>
   scenes ex_scene 10 = Some \<lparr>obs_scene.source = Some 100, first_item = None\<rparr> \<and>
   heap_fresh ex_scene \<and>
   ex_by_name (ex_getname (Some 200)) = Some 200 \<and>
   ex_by_name (ex_getname (Some 201)) = Some 201 \<and>
   map_option (map_sum id fst) (scene_save ex_getname (\<lambda>f::int. f) 10 ex_pair) =
     Some (Inr ex_pair_records) \<and>
   scene_load ex_by_name (\<lambda>d::int. d) 10 (Some ex_pair_records) ex_scene =
     Some (Inr (ex_pair\<lparr>trace :=
       [MutexLock 10, MutexUnlock 10,
        SourceAddref (Some 200), SourceAddChild (Some 100) (Some 200), MutexLock 10,
        MutexUnlock 10, SignalHandlerSignal 100 ''item_add'' (Some 10) 0, SourceRelease (Some 200),
        SourceAddref (Some 201), SourceAddChild (Some 100) (Some 201), MutexLock 10,
        MutexUnlock 10, SignalHandlerSignal 100 ''item_add'' (Some 10) 1,
        SourceRelease (Some 201)]\<rparr>)) \<and>
   map (\<lambda>a. map_option (\<lambda>i. (source i, item_transform i)) (items ex_pair a)) [0, 1] =
     [Some (Some 200, 5, False, Vec2 1 2, Vec2 6 7, Vec2 3 4),
      Some (Some 201, 11, True, Vec2 8 9, Vec2 2 3, Vec2 1 5)] \<and>
   (\<exists>recs st1 st3 ys.
      scene_save ex_getname (\<lambda>f::int. f) 10 ex_pair = Some (Inr (recs, st1)) \<and>
      scene_load ex_by_name (\<lambda>d::int. d) 10 (Some recs) ex_scene = Some (Inr st3) \<and>
      scene_items st3 10 ys \<and>
      length ys = length [0, 1::nat] \<and>
      map (\<lambda>a. map_option (\<lambda>i. (source i, item_transform i)) (items st3 a)) ys =
        map (\<lambda>a. map_option (\<lambda>i. (ex_by_name (ex_getname (source i)), item_transform i))
               (items ex_pair a)) [0, 1])"
proof -
  have S: "scene_items ex_pair 10 [0, 1]"
    by (simp add: scene_items_def ex_pair_def new_item_def)
  have S2: "scenes ex_scene 10 = Some \<lparr>obs_scene.source = Some 100, first_item = None\<rparr>"
    by (simp add: ex_scene_def)
  have e: "first_item \<lparr>obs_scene.source = Some 100, first_item = None\<rparr> = None"
    and ssrc: "obs_scene.source \<lparr>obs_scene.source = Some 100, first_item = None\<rparr> = Some 100"
    by simp_all
  have fresh: "heap_fresh ex_scene" by (simp add: heap_fresh_def ex_scene_def)
  have res: "\<forall>a\<in>set [0, 1]. \<forall>it. items ex_pair a = Some it \<longrightarrow>
      ex_by_name (ex_getname (source it)) \<noteq> None"
    by (simp add: ex_pair_def ex_by_name_def ex_getname_def new_item_def)
  have rt: "\<forall>v::int. (\<lambda>d::int. d) ((\<lambda>f::int. f) v) = v" by simp
  have n0: "ex_by_name (ex_getname (Some 200)) = Some 200"
    and n1: "ex_by_name (ex_getname (Some 201)) = Some 201"
    by (simp_all add: ex_by_name_def ex_getname_def)
  have sv: "map_option (map_sum id fst) (scene_save ex_getname (\<lambda>f::int. f) 10 ex_pair) =
     Some (Inr ex_pair_records)"
    by (simp add: scene_save_def scene_save_loop.simps scene_save_item_def model_defs ex_pair_def
        ex_getname_def ex_pair_records_def)
  have ld: "scene_load ex_by_name (\<lambda>d::int. d) 10 (Some ex_pair_records) ex_scene =
     Some (Inr (ex_pair\<lparr>trace :=
       [MutexLock 10, MutexUnlock 10,
        SourceAddref (Some 200), SourceAddChild (Some 100) (Some 200), MutexLock 10,
        MutexUnlock 10, SignalHandlerSignal 100 ''item_add'' (Some 10) 0, SourceRelease (Some 200),
        SourceAddref (Some 201), SourceAddChild (Some 100) (Some 201), MutexLock 10,
        MutexUnlock 10, SignalHandlerSignal 100 ''item_add'' (Some 10) 1,
        SourceRelease (Some 201)]\<rparr>))"
    by (simp add: scene_load_def remove_all_items_def remove_all_items_loop.simps
        scene_load_item_def model_defs walk_to_last.simps ex_scene_def ex_pair_def
        ex_pair_records_def ex_by_name_def fun_eq_iff)
  have ct: "map (\<lambda>a. map_option (\<lambda>i. (source i, item_transform i)) (items ex_pair a)) [0, 1] =
     [Some (Some 200, 5, False, Vec2 1 2, Vec2 6 7, Vec2 3 4),
      Some (Some 201, 11, True, Vec2 8 9, Vec2 2 3, Vec2 1 5)]"
    by (simp add: ex_pair_def item_transform_def new_item_def)
  show ?thesis
    by (intro conjI S S2 fresh n0 n1 sv ld ct
        save_load_round_trip[where by_name = ex_by_name and getname = ex_getname
          and to_float = "\<lambda>d::int. d" and to_double = "\<lambda>f::int. f",
          OF S S2 e ssrc fresh res rt])
qed

section \<open>Rendering a scene\<close>

lemma emits_fields [simp]:
  "items (emits es st) = items st" "scenes (emits es st) = scenes st" "brk (emits es st) = brk st"
  "trace (emits es st) = trace st @ es"
  by (simp_all add: emits_def)

lemma scene_items_emits [simp]: "scene_items (emits es st) sc xs = scene_items st sc xs"
  by (simp add: scene_items_def cong: option.case_cong)

lemma scene_ok_emits [simp]: "scene_ok (emits es st) sc xs = scene_ok st sc xs"
  by (simp add: scene_ok_def)

lemma drawn_calls_payload:
  assumes "payload i = payload j"
  shows "drawn_calls RAD i = drawn_calls RAD j"
  using payload_eqD[OF assms] by (simp add: drawn_calls_def)

lemma source_gone_payload:
  "map_option payload (items st1 a) = map_option payload (items st a) \<Longrightarrow>
   source_gone rm st1 a = source_gone rm st a"
  by (cases "items st1 a"; cases "items st a") (auto simp: source_gone_def dest: payload_eqD(4))

lemma visit_calls_payload:
  "map_option payload (items st1 a) = map_option payload (items st a) \<Longrightarrow>
   visit_calls rm RAD st1 sc ssrc a = visit_calls rm RAD st sc ssrc a"
  by (cases "items st1 a"; cases "items st a")
     (auto simp: visit_calls_def dest: payload_eqD(4) remove_calls_payload drawn_calls_payload)

lemma render_loop_spec:
  fixes st :: "('f::{zero,one,uminus}) state"
  assumes "scene_ok st sc (ks @ ys)" and "scenes st sc = Some s" and "obs_scene.source s = Some ssrc"
  shows "\<exists>st'. scene_video_render_loop rm RAD st (head_ptr ys None) = Some (Inr st') \<and>
           scene_ok st' sc (ks @ filter (\<lambda>a. \<not> source_gone rm st a) ys) \<and>
           (\<exists>s'. scenes st' sc = Some s' \<and> obs_scene.source s' = Some ssrc) \<and>
           (\<forall>b. \<not> (b \<in> set ys \<and> source_gone rm st b) \<longrightarrow>
              map_option payload (items st' b) = map_option payload (items st b)) \<and>
           (\<forall>a\<in>set ys. source_gone rm st a \<longrightarrow> detached st' a) \<and>
           trace st' = trace st @ concat (map (visit_calls rm RAD st sc ssrc) ys)"
  using assms
proof (induction ys arbitrary: ks st s)
  case Nil
  show ?case using Nil.prems
    by (intro exI[of _ st]) (subst scene_video_render_loop.simps, auto)
next
  case (Cons a ys)
  have mem: "a \<in> set (ks @ a # ys)" by simp
  from scene_okD[OF Cons.prems(1) mem] obtain it where it: "items st a = Some it" by auto
  have nx: "next it = head_ptr ys None" using scene_ok_next[OF Cons.prems(1) it] .
  have d: "a \<notin> set ys" "a \<notin> set ks"
    using Cons.prems(1) by (simp_all add: scene_ok_def scene_items_def)
  show ?case
  proof (cases "rm (source it)")
    case True
    then have gone: "source_gone rm st a" using it by (simp add: source_gone_def)
    from remove_spec[OF Cons.prems(1,2,3) it]
    obtain st1 s1 where rmv: "obs_sceneitem_remove (Some a) st = Inr st1"
      and ok1: "scene_ok st1 sc (ks @ ys)"
      and s1: "scenes st1 sc = Some s1" "obs_scene.source s1 = Some ssrc"
      and ia: "items st1 a = (if ref it = 1 then None
                          else Some (it\<lparr>removed := True, parent := None, ref := ref it - 1\<rparr>))"
      and pay1: "\<forall>b. b \<noteq> a \<longrightarrow> map_option payload (items st1 b) = map_option payload (items st b)"
      and tr1: "trace st1 = trace st @ remove_calls sc ssrc a it"
      by auto
    from Cons.IH[OF ok1 s1]
    obtain st' where lp: "scene_video_render_loop rm RAD st1 (head_ptr ys None) = Some (Inr st')"
      and ok': "scene_ok st' sc (ks @ filter (\<lambda>a. \<not> source_gone rm st1 a) ys)"
      and s': "\<exists>s'. scenes st' sc = Some s' \<and> obs_scene.source s' = Some ssrc"
      and pay': "\<forall>b. \<not> (b \<in> set ys \<and> source_gone rm st1 b) \<longrightarrow>
              map_option payload (items st' b) = map_option payload (items st1 b)"
      and det': "\<forall>a\<in>set ys. source_gone rm st1 a \<longrightarrow> detached st' a"
      and tr': "trace st' = trace st1 @ concat (map (visit_calls rm RAD st1 sc ssrc) ys)"
      by blast
    have same: "source_gone rm st1 b = source_gone rm st b" if "b \<in> set ys" for b
      using that d pay1 by (intro source_gone_payload) auto
    have fl: "filter (\<lambda>a. \<not> source_gone rm st1 a) ys = filter (\<lambda>a. \<not> source_gone rm st a) ys"
      using same by (intro filter_cong) auto
    have vc: "map (visit_calls rm RAD st1 sc ssrc) ys = map (visit_calls rm RAD st sc ssrc) ys"
      using pay1 d by (intro map_cong refl visit_calls_payload) auto
    have da1: "detached st1 a" using ia by (simp add: detached_def)
    have "map_option payload (items st' a) = map_option payload (items st1 a)"
      using pay' d by simp
    then have da': "detached st' a" using da1 detached_payload by blast
    show ?thesis
    proof (intro exI[of _ st'] conjI allI impI ballI)
      show "scene_video_render_loop rm RAD st (head_ptr (a # ys) None) = Some (Inr st')"
        using it True rmv lp nx
        by (subst scene_video_render_loop.simps) (simp add: get_item_def)
      show "scene_ok st' sc (ks @ filter (\<lambda>a. \<not> source_gone rm st a) (a # ys))"
        using ok' fl gone by simp
      show "\<exists>s'. scenes st' sc = Some s' \<and> obs_scene.source s' = Some ssrc" by (rule s')
      show "map_option payload (items st' b) = map_option payload (items st b)"
        if "\<not> (b \<in> set (a # ys) \<and> source_gone rm st b)" for b
      proof -
        have ba: "b \<noteq> a" using that gone by auto
        have "\<not> (b \<in> set ys \<and> source_gone rm st1 b)" using that same by auto
        then show ?thesis using pay' pay1 ba by simp
      qed
      show "detached st' b" if "b \<in> set (a # ys)" "source_gone rm st b" for b
        using that da' det' same by auto
      show "trace st' = trace st @ concat (map (visit_calls rm RAD st sc ssrc) (a # ys))"
        using tr' tr1 vc it True by (simp add: visit_calls_def)
    qed
  next
    case False
    then have kept: "\<not> source_gone rm st a" using it by (simp add: source_gone_def)
    let ?st1 = "emits (drawn_calls RAD it) st"
    have ok1: "scene_ok ?st1 sc ((ks @ [a]) @ ys)" using Cons.prems(1) by simp
    have s1: "scenes ?st1 sc = Some s" using Cons.prems(2) by simp
    from Cons.IH[OF ok1 s1 Cons.prems(3)]
    obtain st' where lp: "scene_video_render_loop rm RAD ?st1 (head_ptr ys None) = Some (Inr st')"
      and ok': "scene_ok st' sc ((ks @ [a]) @ filter (\<lambda>a. \<not> source_gone rm ?st1 a) ys)"
      and s': "\<exists>s'. scenes st' sc = Some s' \<and> obs_scene.source s' = Some ssrc"
      and pay': "\<forall>b. \<not> (b \<in> set ys \<and> source_gone rm ?st1 b) \<longrightarrow>
              map_option payload (items st' b) = map_option payload (items ?st1 b)"
      and det': "\<forall>a\<in>set ys. source_gone rm ?st1 a \<longrightarrow> detached st' a"
      and tr': "trace st' = trace ?st1 @ concat (map (visit_calls rm RAD ?st1 sc ssrc) ys)"
      by blast
    have same: "source_gone rm ?st1 = source_gone rm st"
      by (rule ext) (simp add: source_gone_def)
    have vc: "visit_calls rm RAD ?st1 sc ssrc = visit_calls rm RAD st sc ssrc"
      by (rule ext) (simp add: visit_calls_def)
    show ?thesis
    proof (intro exI[of _ st'] conjI allI impI ballI)
      show "scene_video_render_loop rm RAD st (head_ptr (a # ys) None) = Some (Inr st')"
        using it False lp nx
        by (subst scene_video_render_loop.simps) (simp add: get_item_def drawn_calls_def)
      show "scene_ok st' sc (ks @ filter (\<lambda>a. \<not> source_gone rm st a) (a # ys))"
        using ok' same kept by simp
      show "\<exists>s'. scenes st' sc = Some s' \<and> obs_scene.source s' = Some ssrc" by (rule s')
      show "map_option payload (items st' b) = map_option payload (items st b)"
        if "\<not> (b \<in> set (a # ys) \<and> source_gone rm st b)" for b
        using that pay' same by auto
      show "detached st' b" if "b \<in> set (a # ys)" "source_gone rm st b" for b
        using that det' same kept by auto
      show "trace st' = trace st @ concat (map (visit_calls rm RAD st sc ssrc) (a # ys))"
        using tr' vc it False by (simp add: visit_calls_def)
    qed
  qed
qed

text \<open>
  On a scene in its regular state \<open>scene_video_render\<close> returns. It locks once at the
  start and unlocks once at the end; in between it visits the items in list order, each
  exactly once: an item whose source reports removed is removed by \<open>obs_sceneitem_remove\<close>
  (the successor having been read before), every other item gets the calls that the claim
  lists. Afterwards the list holds exactly the items whose sources did not report
  removed, in their old order and otherwise unchanged; the others are detached.
\<close>

lemma scene_video_render_regular:
  fixes st :: "('f::{zero,one,uminus}) state"
  assumes ok: "scene_ok st sc xs" and sc: "scenes st sc = Some s"
    and ssrc: "obs_scene.source s = Some ssrc"
  shows "\<exists>st'. scene_video_render rm RAD sc st = Some (Inr st') \<and>
           scene_items st' sc (filter (\<lambda>a. \<not> source_gone rm st a) xs) \<and>
           (\<forall>a\<in>set xs. source_gone rm st a \<longrightarrow> detached st' a) \<and>
           (\<forall>a\<in>set xs. \<not> source_gone rm st a \<longrightarrow>
              map_option payload (items st' a) = map_option payload (items st a)) \<and>
           trace st' = trace st @ [MutexLock sc] @
             concat (map (visit_calls rm RAD st sc ssrc) xs) @ [MutexUnlock sc]"
proof -
  let ?st1 = "emit (MutexLock sc) st"
  have ok1: "scene_ok ?st1 sc ([] @ xs)" using ok by simp
  have sc1: "scenes ?st1 sc = Some s" using sc by simp
  have fi: "first_item s = head_ptr xs None" by (rule scene_ok_first[OF ok sc])
  from render_loop_spec[OF ok1 sc1 ssrc, of rm RAD]
  obtain st2 where lp: "scene_video_render_loop rm RAD ?st1 (head_ptr xs None) = Some (Inr st2)"
    and ok2: "scene_ok st2 sc ([] @ filter (\<lambda>a. \<not> source_gone rm ?st1 a) xs)"
    and s2: "\<exists>s'. scenes st2 sc = Some s' \<and> obs_scene.source s' = Some ssrc"
    and pay2: "\<forall>b. \<not> (b \<in> set xs \<and> source_gone rm ?st1 b) \<longrightarrow>
              map_option payload (items st2 b) = map_option payload (items ?st1 b)"
    and det2: "\<forall>a\<in>set xs. source_gone rm ?st1 a \<longrightarrow> detached st2 a"
    and tr2: "trace st2 = trace ?st1 @ concat (map (visit_calls rm RAD ?st1 sc ssrc) xs)"
    by blast
  have same: "source_gone rm ?st1 = source_gone rm st"
    by (rule ext) (simp add: source_gone_def)
  have vc: "visit_calls rm RAD ?st1 sc ssrc = visit_calls rm RAD st sc ssrc"
    by (rule ext) (simp add: visit_calls_def)
  let ?st' = "emit (MutexUnlock sc) st2"
  show ?thesis
  proof (intro exI[of _ ?st'] conjI ballI impI)
    show "scene_video_render rm RAD sc st = Some (Inr ?st')"
      using sc lp s2 fi
      by (auto simp: scene_video_render_def mutex_lock_def mutex_unlock_def get_scene_def)
    show "scene_items ?st' sc (filter (\<lambda>a. \<not> source_gone rm st a) xs)"
      using ok2 same by (simp add: scene_ok_def)
    show "detached ?st' a" if "a \<in> set xs" "source_gone rm st a" for a
      using that det2 same by (simp add: detached_def)
    show "map_option payload (items ?st' a) = map_option payload (items st a)"
      if "a \<in> set xs" "\<not> source_gone rm st a" for a
      using that pay2 same by simp
    show "trace ?st' = trace st @ [MutexLock sc] @
             concat (map (visit_calls rm RAD st sc ssrc) xs) @ [MutexUnlock sc]"
      using tr2 vc by simp
  qed
qed

lemma ex_three_reachable:
  "scene_load ex_by_name (\<lambda>d::int. d) 10
     (Some [\<lparr>data_name = ''x'', data_visible = False, data_rot = 5, data_origin = Vec2 1 2,
              data_pos = Vec2 6 7, data_scale = Vec2 3 4\<rparr>,
            \<lparr>data_name = ''y'', data_visible = True, data_rot = 0, data_origin = Vec2 0 0,
              data_pos = Vec2 0 0, data_scale = Vec2 1 1\<rparr>,
            \<lparr>data_name = ''z'', data_visible = True, data_rot = 0, data_origin = Vec2 0 0,
              data_pos = Vec2 0 0, data_scale = Vec2 1 1\<rparr>]) ex_scene =
   Some (Inr (ex_three\<lparr>trace :=
       [MutexLock 10, MutexUnlock 10,
        SourceAddref (Some 200), SourceAddChild (Some 100) (Some 200), MutexLock 10,
        MutexUnlock 10, SignalHandlerSignal 100 ''item_add'' (Some 10) 0, SourceRelease (Some 200),
        SourceAddref (Some 201), SourceAddChild (Some 100) (Some 201), MutexLock 10,
        MutexUnlock 10, SignalHandlerSignal 100 ''item_add'' (Some 10) 1, SourceRelease (Some 201),
        SourceAddref (Some 202), SourceAddChild (Some 100) (Some 202), MutexLock 10,
        MutexUnlock 10, SignalHandlerSignal 100 ''item_add'' (Some 10) 2,
        SourceRelease (Some 202)]\<rparr>))"
  by (simp add: scene_load_def remove_all_items_def remove_all_items_loop.simps
      scene_load_item_def model_defs walk_to_last.simps ex_scene_def ex_three_def
      ex_by_name_def fun_eq_iff)

text \<open>
  C8 (the code fails here). Claim: for every scene \<open>scene_video_render\<close> walks the list
  once under the lock, removes each item whose source reports removed (successor read
  first) and draws every other item with push, translate by origin, scale, rotate by the
  negated rotation, translate by the negated position, render, pop, so that afterwards
  the list holds exactly the items whose sources were not removed.
  On the scene with the items 0, 1, 2 as loading made them, where the source of item 1
  reports removed, the code does so (item 0, which is not visible, is drawn like any
  other). But after \<open>obs_sceneitem_setorder\<close> with movement up on item 1 of the scene 0, 1,
  which returns and leaves the list as it was, the parent of item 1 is NULL (the defect of
  C1 to C3), and rendering with the source of item 1 removed stops at
  \<open>assert(scene != NULL)\<close> of \<open>obs_sceneitem_remove\<close>: the item stays in the list and the
  walk is not completed.
\<close>

theorem scene_video_render_after_setorder_assert:
  "map_option (map_sum id (\<lambda>st. (scene_items st 10 [0, 1], map_option parent (items st 1))))
     (obs_sceneitem_setorder (Some 1) ORDER_MOVE_UP ex_two) = Some (Inr (True, Some None)) \<and>
   bindO (obs_sceneitem_setorder (Some 1) ORDER_MOVE_UP ex_two)
     (scene_video_render (\<lambda>p. p = Some 201) (\<lambda>v::int. v * 2) 10) = Some (Inl AssertFailed) \<and>
   map_option (map_sum id (\<lambda>st. (scene_items st 10 [0, 2], items st 1, trace st)))
     (scene_video_render (\<lambda>p. p = Some 201) (\<lambda>v. v * 2) 10 ex_three) =
     Some (Inr (True, None,
       [MutexLock 10,
        GsMatrixPush, GsMatrixTranslate3f 1 2 0, GsMatrixScale3f 3 4 1,
        GsMatrixRotaa4f 0 0 1 (- 10), GsMatrixTranslate3f (- 6) (- 7) 0,
        SourceVideoRender (Some 200), GsMatrixPop,
        MutexLock 10, SourceRemoveChild (Some 100) (Some 201),
        SignalHandlerSignal 100 ''item_remove'' (Some 10) 1, MutexUnlock 10,
        SourceRelease (Some 201), Bfree 1,
        GsMatrixPush, GsMatrixTranslate3f 0 0 0, GsMatrixScale3f 1 1 1,
        GsMatrixRotaa4f 0 0 1 0, GsMatrixTranslate3f 0 0 0,
        SourceVideoRender (Some 202), GsMatrixPop,
        MutexUnlock 10]))"
  by (simp add: scene_video_render_def scene_video_render_loop.simps
      model_defs ex_two_def ex_three_def scene_items_def)

end
